theory Spec2Isabelle
  imports Complex_Main
begin

section \<open>Numbers, vectors and the functions taken from outside\<close>

text \<open>
  The sampler is C code over \<^verbatim>\<open>double\<close> and \<^verbatim>\<open>int\<close>. A finite double is read as the real
  number it stands for (rounding is left out), the libm functions \<^verbatim>\<open>log\<close>, \<^verbatim>\<open>exp\<close> and
  \<^verbatim>\<open>sqrt\<close> as \<^term>\<open>ln\<close>, \<^term>\<open>exp\<close> and \<^term>\<open>sqrt\<close>. Counts and array indices are
  non-negative C ints far below the overflow bound and are natural numbers here; flags
  and tags stay integers. Arrays indexed by unit are functions from the index; a vector
  of \<^verbatim>\<open>n_cov\<close> entries is a list, a matrix a list of rows.

  The infinities and the NaN of IEEE arithmetic are written out where \<^verbatim>\<open>cDPeco\<close> divides
  by a margin or by a total of weights, which can be zero: the bounds and the grid of a
  unit divide by X and by 1 - X, and the two selection loops divide a cumulative weight
  by the total. A value is a \<open>dbl\<close> there, a finite number, an infinity or a NaN;
  \<open>c_div\<close> is the quotient of two finite numbers and \<open>c_gt\<close> the C comparison
  \<^verbatim>\<open>x > q\<close> of a finite \<open>x\<close> (false against a NaN). A zero is the positive zero; the
  negative zero of IEEE arithmetic is not told apart. Everywhere else a quotient is the
  quotient of real numbers.
\<close>

type_synonym vec = "real list"
type_synonym mat = "real list list"

datatype dbl = Fin real | PInf | NInf | NaN

definition c_div :: "real \<Rightarrow> real \<Rightarrow> dbl" where
  "c_div a b =
     (if b \<noteq> 0 then Fin (a / b)
      else if 0 < a then PInf
      else if a < 0 then NInf
      else NaN)"

fun c_gt :: "real \<Rightarrow> dbl \<Rightarrow> bool" where
  "c_gt x (Fin q) = (q < x)"
| "c_gt x PInf = False"
| "c_gt x NInf = True"
| "c_gt x NaN = False"

text \<open>
  Sum, difference, product, quotient and the comparison \<^verbatim>\<open>p < q\<close> of two doubles, by the
  rules of IEEE 754 for infinities and NaN: a NaN operand gives a NaN and a false
  comparison; \<open>inf - inf\<close>, \<open>0 * inf\<close>, \<open>0 / 0\<close> and \<open>inf / inf\<close> are NaN.
\<close>

fun d_neg :: "dbl \<Rightarrow> dbl" where
  "d_neg (Fin a) = Fin (- a)"
| "d_neg PInf = NInf"
| "d_neg NInf = PInf"
| "d_neg NaN = NaN"

fun d_add :: "dbl \<Rightarrow> dbl \<Rightarrow> dbl" where
  "d_add (Fin a) (Fin b) = Fin (a + b)"
| "d_add (Fin a) PInf = PInf"
| "d_add (Fin a) NInf = NInf"
| "d_add PInf (Fin b) = PInf"
| "d_add PInf PInf = PInf"
| "d_add NInf (Fin b) = NInf"
| "d_add NInf NInf = NInf"
| "d_add PInf NInf = NaN"
| "d_add NInf PInf = NaN"
| "d_add NaN q = NaN"
| "d_add p NaN = NaN"

definition d_sub :: "dbl \<Rightarrow> dbl \<Rightarrow> dbl" where
  "d_sub p q = d_add p (d_neg q)"

definition inf_of_sign :: "real \<Rightarrow> dbl" where
  "inf_of_sign a = (if 0 < a then PInf else if a < 0 then NInf else NaN)"

fun d_mul :: "dbl \<Rightarrow> dbl \<Rightarrow> dbl" where
  "d_mul (Fin a) (Fin b) = Fin (a * b)"
| "d_mul (Fin a) PInf = inf_of_sign a"
| "d_mul (Fin a) NInf = inf_of_sign (- a)"
| "d_mul PInf (Fin b) = inf_of_sign b"
| "d_mul NInf (Fin b) = inf_of_sign (- b)"
| "d_mul PInf PInf = PInf"
| "d_mul PInf NInf = NInf"
| "d_mul NInf PInf = NInf"
| "d_mul NInf NInf = PInf"
| "d_mul NaN q = NaN"
| "d_mul p NaN = NaN"

fun d_div :: "dbl \<Rightarrow> dbl \<Rightarrow> dbl" where
  "d_div (Fin a) (Fin b) = c_div a b"
| "d_div (Fin a) PInf = Fin 0"
| "d_div (Fin a) NInf = Fin 0"
| "d_div PInf (Fin b) = (if b < 0 then NInf else PInf)"
| "d_div NInf (Fin b) = (if b < 0 then PInf else NInf)"
| "d_div PInf PInf = NaN"
| "d_div PInf NInf = NaN"
| "d_div NInf PInf = NaN"
| "d_div NInf NInf = NaN"
| "d_div NaN q = NaN"
| "d_div p NaN = NaN"

fun d_less :: "dbl \<Rightarrow> dbl \<Rightarrow> bool" where
  "d_less (Fin a) (Fin b) = (a < b)"
| "d_less (Fin a) PInf = True"
| "d_less (Fin a) NInf = False"
| "d_less PInf q = False"
| "d_less NInf (Fin b) = True"
| "d_less NInf PInf = True"
| "d_less NInf NInf = False"
| "d_less NaN q = False"
| "d_less p NaN = False"

text \<open>
  \<^verbatim>\<open>fmax2\<close> and \<^verbatim>\<open>fmin2\<close> of R's math library: \<^verbatim>\<open>x + y\<close> when an argument is a NaN,
  else \<^verbatim>\<open>(x < y) ? y : x\<close> and \<^verbatim>\<open>(x < y) ? x : y\<close>.
\<close>

definition fmax2 :: "dbl \<Rightarrow> dbl \<Rightarrow> dbl" where
  "fmax2 p q = (if p = NaN \<or> q = NaN then d_add p q else if d_less p q then q else p)"

definition fmin2 :: "dbl \<Rightarrow> dbl \<Rightarrow> dbl" where
  "fmin2 p q = (if p = NaN \<or> q = NaN then d_add p q else if d_less p q then p else q)"

text \<open>
  The state of the sampler holds real numbers. \<open>fin\<close> reads a double as the real it
  stands for; an infinity or a NaN has none and is read as 0, and from such a value on
  the state of the model is no longer that of the C code. Where this can happen is said
  at the places that use \<open>fin\<close>.
\<close>

fun fin :: "dbl \<Rightarrow> real" where
  "fin (Fin a) = a"
| "fin PInf = 0"
| "fin NInf = 0"
| "fin NaN = 0"

definition n_cov :: nat where
  "n_cov = 2"

text \<open>
  \<^verbatim>\<open>vector.c\<close> is not among the sources. Its allocators are taken to hand out
  zero-filled storage; the theorems below do not depend on the initial contents.
\<close>

definition doubleArray :: "nat \<Rightarrow> real list" where
  "doubleArray n = replicate n 0"

definition doubleMatrix :: "nat \<Rightarrow> nat \<Rightarrow> real list list" where
  "doubleMatrix r c = replicate r (doubleArray c)"

section \<open>fintegrate.c\<close>

text \<open>
  The part of \<^verbatim>\<open>Param\<close> (declared in \<^verbatim>\<open>bayes.h\<close>, not among the sources) that
  \<^verbatim>\<open>fintegrate.c\<close> reads and writes: \<^verbatim>\<open>pp->caseP.X\<close> is \<open>caseP_X (caseP pp)\<close>,
  \<^verbatim>\<open>pp->setP->Sigma\<close> is \<open>setP_Sigma (setP pp)\<close>.
\<close>

record caseParam =
  caseP_mu :: vec
  caseP_X :: real
  caseP_Y :: real
  caseP_normcT :: real
  caseP_suff :: int
  caseP_Wbounds :: mat

record setParam =
  setP_ncar :: int
  setP_Sigma :: mat
  setP_InvSigma :: mat
  setP_Sigma3 :: mat
  setP_InvSigma3 :: mat

record Param =
  caseP :: caseParam
  setP :: setParam

text \<open>
  What \<^verbatim>\<open>Rprintf\<close> writes, by call site: the line of \<^verbatim>\<open>paramIntegration\<close> with its
  eight arguments (ier, suff, X, Y, the two W1 bounds, result, anserr), and the line of
  \<^verbatim>\<open>SuffExp\<close> with the tag.
\<close>

datatype msg =
    IntegrationError int int real real real real real real
  | ErrorSuff int

text \<open>What \<^verbatim>\<open>Rdqags\<close> hands back, with the lines its calls of the integrand printed.\<close>

record quad =
  q_result :: real
  q_anserr :: real
  q_neval :: int
  q_ier :: int
  q_last :: int
  q_out :: "msg list"

text \<open>
  The process's console: the lines printed so far, the characters of standard input
  that are or will become available, and whether the stream ends after them. A read
  that needs a character when none is left and the stream is still open waits for
  ever: it has no value (\<open>None\<close>).
\<close>

record io =
  io_out :: "msg list"
  io_stdin :: string
  io_eof :: bool

text \<open>
  The functions of R, of its math library and of the files of the package that are not
  among the sources, taken as parameters. \<open>'r\<close> is the state of R's random number
  generator; a sampling function returns its draw and the new state.
\<close>

record 'r ext =
  unif_rand :: "'r \<Rightarrow> real \<times> 'r"
  norm_rand :: "'r \<Rightarrow> real \<times> 'r"
  rbeta :: "real \<Rightarrow> real \<Rightarrow> 'r \<Rightarrow> real \<times> 'r"
  rgamma :: "real \<Rightarrow> real \<Rightarrow> 'r \<Rightarrow> real \<times> 'r"
  rWish :: "mat \<Rightarrow> int \<Rightarrow> nat \<Rightarrow> 'r \<Rightarrow> mat \<times> 'r"
  rMVN :: "vec \<Rightarrow> mat \<Rightarrow> nat \<Rightarrow> 'r \<Rightarrow> vec \<times> 'r"
  dinv :: "mat \<Rightarrow> nat \<Rightarrow> mat"
  dMVN :: "vec \<Rightarrow> vec \<Rightarrow> mat \<Rightarrow> nat \<Rightarrow> int \<Rightarrow> real"
  dMVT :: "vec \<Rightarrow> vec \<Rightarrow> mat \<Rightarrow> int \<Rightarrow> nat \<Rightarrow> int \<Rightarrow> real"
  qnorm :: "real \<Rightarrow> real \<Rightarrow> real \<Rightarrow> int \<Rightarrow> int \<Rightarrow> real"
  dnorm :: "real \<Rightarrow> real \<Rightarrow> real \<Rightarrow> int \<Rightarrow> real"
  pnorm :: "real \<Rightarrow> real \<Rightarrow> real \<Rightarrow> int \<Rightarrow> int \<Rightarrow> real"
  R_qsort_int_I :: "nat list \<Rightarrow> nat list \<Rightarrow> nat \<Rightarrow> nat \<Rightarrow> nat list \<times> nat list"
  dBVNtomo :: "vec \<Rightarrow> Param \<Rightarrow> int \<Rightarrow> real \<Rightarrow> real"
  invLogit :: "real \<Rightarrow> real"
  Rdqags :: "(real list \<Rightarrow> nat \<Rightarrow> real list \<times> msg list) \<Rightarrow> real \<Rightarrow> real \<Rightarrow> real \<Rightarrow> real \<Rightarrow> int \<Rightarrow> quad"

subsection \<open>The parametrisation of the tomography line\<close>

text \<open>
  \<^verbatim>\<open>getW1starFromT(t, param, &imposs)\<close>: the value returned and the flag afterwards.
\<close>

definition getW1starFromT :: "real \<Rightarrow> Param \<Rightarrow> int \<Rightarrow> real \<times> int" where
  "getW1starFromT t param imposs =
     (let Wb = caseP_Wbounds (caseP param);
          W1 = (Wb ! 0 ! 1 - Wb ! 0 ! 0) * t + Wb ! 0 ! 0
      in if W1 = 1 \<or> W1 = 0 then (W1, 1) else (ln (W1 / (1 - W1)), imposs))"

definition getW2starFromT :: "real \<Rightarrow> Param \<Rightarrow> int \<Rightarrow> real \<times> int" where
  "getW2starFromT t param imposs =
     (let Wb = caseP_Wbounds (caseP param);
          W2 = (Wb ! 1 ! 0 - Wb ! 1 ! 1) * t + Wb ! 1 ! 1
      in if W2 = 1 \<or> W2 = 0 then (W2, 1) else (ln (W2 / (1 - W2)), imposs))"

definition getW1starPrimeFromT :: "real \<Rightarrow> Param \<Rightarrow> real" where
  "getW1starPrimeFromT t param =
     (let Wb = caseP_Wbounds (caseP param);
          m = Wb ! 0 ! 1 - Wb ! 0 ! 0;
          W1 = m * t + Wb ! 0 ! 0
      in (1 / W1) * (m / (1 - W1)))"

definition getW2starPrimeFromT :: "real \<Rightarrow> Param \<Rightarrow> real" where
  "getW2starPrimeFromT t param =
     (let Wb = caseP_Wbounds (caseP param);
          m = Wb ! 1 ! 0 - Wb ! 1 ! 1;
          W2 = m * t + Wb ! 1 ! 1
      in (1 / W2) * (m / (1 - W2)))"

subsection \<open>SuffExp\<close>

text \<open>
  The body of the loop of \<^verbatim>\<open>SuffExp\<close> at one node \<^verbatim>\<open>t[ii]\<close>: the value left in
  \<^verbatim>\<open>t[ii]\<close> and the lines printed. The local \<^verbatim>\<open>mu\<close> and \<^verbatim>\<open>InvSigma\<close> are the copies
  the function makes before the loop.
\<close>

definition SuffExp_node :: "'r ext \<Rightarrow> Param \<Rightarrow> real \<Rightarrow> real \<times> msg list" where
  "SuffExp_node E pp t_ii =
     (let dim = (if setP_ncar (setP pp) = 1 then 3 else 2);
          mu_l = (doubleArray dim)[0 := caseP_mu (caseP pp) ! 0, 1 := caseP_mu (caseP pp) ! 1];
          InvSigma_l = map (\<lambda>i. map (\<lambda>j.
              if dim = 3 then setP_InvSigma3 (setP pp) ! i ! j
              else setP_InvSigma (setP pp) ! i ! j) [0..<dim]) [0..<dim];
          normc = caseP_normcT (caseP pp);
          suff = caseP_suff (caseP pp);
          (W1, imposs1) = getW1starFromT t_ii pp 0;
          (W2, imposs2) = (if imposs1 = 0 then getW2starFromT t_ii pp imposs1 else (0, imposs1))
      in if imposs2 = 1 then (0, [])
         else
           let W1p = getW1starPrimeFromT t_ii pp;
               W2p = getW2starPrimeFromT t_ii pp;
               pfact = sqrt (W1p * W1p + W2p * W2p);
               vtemp = (doubleArray dim)[0 := W1, 1 := W2];
               density = dBVNtomo E vtemp pp 0 normc;
               t0 = density * pfact
           in if suff = 0 then (W1 * t0, [])
              else if suff = 1 then (W2 * t0, [])
              else if suff = 2 then (W1 * W1 * t0, [])
              else if suff = 3 then (W1 * W2 * t0, [])
              else if suff = 4 then (W2 * W2 * t0, [])
              else if suff = 5 then (invLogit E W1 * t0, [])
              else if suff = 6 then (invLogit E W2 * t0, [])
              else if suff = 7 then (dMVN E vtemp mu_l InvSigma_l dim 0 * pfact, [])
              else if suff \<noteq> - 1 then (t0, [ErrorSuff suff])
              else (t0, []))"

text \<open>
  \<^verbatim>\<open>SuffExp(t, n, param)\<close> overwrites the first \<open>n\<close> entries of \<open>t\<close>, node by node.
\<close>

definition SuffExp :: "'r ext \<Rightarrow> real list \<Rightarrow> nat \<Rightarrow> Param \<Rightarrow> real list \<times> msg list" where
  "SuffExp E t n param =
     (let rs = map (SuffExp_node E param) (take n t)
      in (map fst rs @ drop n t, concat (map snd rs)))"

subsection \<open>paramIntegration\<close>

text \<open>
  \<^verbatim>\<open>scanf\<close> on a format: a literal character must match the next input character (a
  mismatch is pushed back and ends the call), white space in the format skips any white
  space of the input, \<^verbatim>\<open>%c\<close> takes one character. The result is the input left over.
\<close>

datatype fmt = Lit char | Blank | ConvC

definition isspace :: "char \<Rightarrow> bool" where
  "isspace c = (c \<in> set [CHR '' '', CHR 0x09, CHR 0x0A, CHR 0x0B, CHR 0x0C, CHR 0x0D])"

fun scanf_fmt :: "string \<Rightarrow> fmt list" where
  "scanf_fmt [] = []"
| "scanf_fmt [c] = (if isspace c then [Blank] else [Lit c])"
| "scanf_fmt (c # d # cs) =
     (if c = CHR ''%'' \<and> d = CHR ''c'' then ConvC # scanf_fmt cs
      else if isspace c then Blank # scanf_fmt (d # cs)
      else Lit c # scanf_fmt (d # cs))"

function scanf_match :: "fmt list \<Rightarrow> string \<Rightarrow> bool \<Rightarrow> string option" where
  "scanf_match [] buf eof = Some buf"
| "scanf_match (Lit c # fs) [] eof = (if eof then Some [] else None)"
| "scanf_match (Lit c # fs) (b # bs) eof =
     (if b = c then scanf_match fs bs eof else Some (b # bs))"
| "scanf_match (Blank # fs) [] eof = (if eof then scanf_match fs [] eof else None)"
| "scanf_match (Blank # fs) (b # bs) eof =
     (if isspace b then scanf_match (Blank # fs) bs eof else scanf_match fs (b # bs) eof)"
| "scanf_match (ConvC # fs) [] eof = (if eof then Some [] else None)"
| "scanf_match (ConvC # fs) (b # bs) eof = scanf_match fs bs eof"
  by pat_completeness auto
termination
  by (relation "measure (\<lambda>(fs, buf, eof). length fs + length buf)") auto

text \<open>The format of the \<^verbatim>\<open>scanf\<close> call of \<^verbatim>\<open>paramIntegration\<close>.\<close>

definition hit_enter_fmt :: "fmt list" where
  "hit_enter_fmt = scanf_fmt ''Hit enter to continue %c''"

definition paramIntegration ::
  "'r ext \<Rightarrow> (real list \<Rightarrow> nat \<Rightarrow> Param \<Rightarrow> real list \<times> msg list) \<Rightarrow> Param \<Rightarrow> io \<Rightarrow> (real \<times> io) option" where
  "paramIntegration E f ex s =
     (let epsabs = 1 / 1000000000; epsrel = 1 / 1000000000;
          limit = 100;
          lb = 1 / 100000; ub = 99999 / 100000;
          q = Rdqags E (\<lambda>t n. f t n ex) lb ub epsabs epsrel limit;
          s1 = s\<lparr>io_out := io_out s @ q_out q\<rparr>
      in if q_ier q = 0 then Some (q_result q, s1)
         else
           let p = ex;
               s2 = s1\<lparr>io_out := io_out s1 @
                      [IntegrationError (q_ier q) (caseP_suff (caseP p)) (caseP_X (caseP p))
                         (caseP_Y (caseP p)) (caseP_Wbounds (caseP p) ! 0 ! 0)
                         (caseP_Wbounds (caseP p) ! 0 ! 1) (q_result q) (q_anserr q)]\<rparr>
           in case scanf_match hit_enter_fmt (io_stdin s2) (io_eof s2) of
                None \<Rightarrow> None
              | Some rest \<Rightarrow> Some (q_result q, s2\<lparr>io_stdin := rest\<rparr>))"

subsection \<open>setBounds\<close>

definition setBounds :: "Param \<Rightarrow> Param" where
  "setBounds param =
     (let tol0 = 1 / 10000; tol1 = 9999 / 10000;
          X = caseP_X (caseP param);
          Y = caseP_Y (caseP param);
          w1_ub0 = (Y - (1 - X) * 0) / X;
          w1_ub = (if w1_ub0 > tol1 then 1 else w1_ub0);
          w1_lb0 = (Y - (1 - X) * 1) / X;
          w1_lb = (if w1_lb0 < tol0 then 0 else w1_lb0);
          w2_ub0 = Y / (1 - X) - X * 0 / (1 - X);
          w2_ub = (if w2_ub0 > tol1 then 1 else w2_ub0);
          w2_lb0 = Y / (1 - X) - X * 1 / (1 - X);
          w2_lb = (if w2_lb0 < tol0 then 0 else w2_lb0)
      in param\<lparr>caseP := (caseP param)\<lparr>caseP_Wbounds := [[w1_lb, w1_ub], [w2_lb, w2_ub]]\<rparr>\<rparr>)"

section \<open>gibbsDP.c: the call's arguments and the sampler's state\<close>

text \<open>
  The arguments of \<^verbatim>\<open>cDPeco\<close> that are read. The storage arguments are the fields of
  \<open>draws\<close> below.
\<close>

record inputs =
  n_gen :: nat
  link :: int
  pdX :: "real list"
  pin_samp :: nat
  pinu0 :: int
  pdtau0 :: real
  mu0 :: vec
  pdS0 :: "real list"
  pinUpdate :: int
  burn_in :: nat
  pinth :: nat
  pred :: int
  pda0 :: real
  pdb0 :: real
  survey :: int
  sur_samp :: nat
  sur_W :: "real list"
  x1 :: int
  sampx1 :: nat
  x1_W1 :: "real list"
  x0 :: int
  sampx0 :: nat
  x0_W2 :: "real list"

definition t_samp :: "inputs \<Rightarrow> nat" where
  "t_samp a = pin_samp a + sampx1 a + sampx0 a + sur_samp a"

text \<open>
  \<^verbatim>\<open>X[i][j] = pdX[itemp++]\<close> with \<open>j\<close> in the outer loop: column 0 is the margin X of
  the accounting identity, column 1 the margin Y. \<^verbatim>\<open>S0[j][k] = pdS0[itemp++]\<close> with
  \<open>k\<close> in the outer loop. The arrays of the caller are as long as the counts passed
  with them say.
\<close>

definition Xd :: "inputs \<Rightarrow> nat \<Rightarrow> nat \<Rightarrow> real" where
  "Xd a i j = pdX a ! (j * pin_samp a + i)"

definition mat_of :: "(nat \<Rightarrow> nat \<Rightarrow> real) \<Rightarrow> mat" where
  "mat_of f = map (\<lambda>j. map (\<lambda>k. f j k) [0..<n_cov]) [0..<n_cov]"

definition vec_of :: "(nat \<Rightarrow> real) \<Rightarrow> vec" where
  "vec_of f = map f [0..<n_cov]"

definition S0 :: "inputs \<Rightarrow> mat" where
  "S0 a = mat_of (\<lambda>j k. pdS0 a ! (k * n_cov + j))"

text \<open>The storage arguments: each a buffer of the caller's, written by index.\<close>

record draws =
  pdSMu0 :: "nat \<Rightarrow> real"
  pdSMu1 :: "nat \<Rightarrow> real"
  pdSSig00 :: "nat \<Rightarrow> real"
  pdSSig01 :: "nat \<Rightarrow> real"
  pdSSig11 :: "nat \<Rightarrow> real"
  pdSW1 :: "nat \<Rightarrow> real"
  pdSW2 :: "nat \<Rightarrow> real"
  pdSWt1 :: "nat \<Rightarrow> real"
  pdSWt2 :: "nat \<Rightarrow> real"
  pdY :: "nat \<Rightarrow> real"
  pdSa :: "nat \<Rightarrow> real"
  pdSn :: "nat \<Rightarrow> nat"

text \<open>
  The variables of \<^verbatim>\<open>cDPeco\<close> that live across loop iterations. A row \<open>W st i\<close> has
  the two entries \<^verbatim>\<open>W[i][0]\<close>, \<^verbatim>\<open>W[i][1]\<close>.
\<close>

record 'r dp =
  W :: "nat \<Rightarrow> vec"
  Wstar :: "nat \<Rightarrow> vec"
  mu :: "nat \<Rightarrow> vec"
  Sigma :: "nat \<Rightarrow> mat"
  InvSigma :: "nat \<Rightarrow> mat"
  C :: "nat \<Rightarrow> nat"
  sortC :: "nat \<Rightarrow> nat"
  nstar :: nat
  alpha :: real
  prob_grid :: "nat \<Rightarrow> real"
  rng :: 'r
  itempA :: nat
  itempS :: nat
  itempC :: nat
  out :: draws

text \<open>The element-wise copy loops over \<open>k, l < n_cov\<close>.\<close>

definition copy_vec :: "vec \<Rightarrow> vec" where
  "copy_vec v = vec_of (\<lambda>k. v ! k)"

definition copy_mat :: "mat \<Rightarrow> mat" where
  "copy_mat m = mat_of (\<lambda>k l. m ! k ! l)"

section \<open>gibbsDP.c: initial values, bounds and grids\<close>

text \<open>Lines 199-205, for one unit with \<^verbatim>\<open>X[i][1]\<close> equal to \<open>y\<close>.\<close>

definition init_W_row :: "real \<Rightarrow> vec" where
  "init_W_row y =
     vec_of (\<lambda>j. if y = 0 then 1 / 1000000 else if y = 1 then 999999 / 1000000 else 0)"

definition clamp01 :: "real \<Rightarrow> real" where
  "clamp01 w =
     (let w1 = (if w = 0 then 1 / 1000000 else w)
      in if w1 = 1 then 999999 / 1000000 else w1)"

definition logit :: "real \<Rightarrow> real" where
  "logit w = ln w - ln (1 - w)"

text \<open>Lines 210-216 and 218-224, one unit of the homogeneous areas each.\<close>

definition read_x1_unit :: "inputs \<Rightarrow> nat \<Rightarrow> 'r dp \<Rightarrow> 'r dp" where
  "read_x1_unit a i st =
     (let k = pin_samp a + i;
          w = clamp01 (x1_W1 a ! i)
      in st\<lparr>W := (W st)(k := [w, W st k ! 1]),
            Wstar := (Wstar st)(k := [logit w, Wstar st k ! 1])\<rparr>)"

definition read_x0_unit :: "inputs \<Rightarrow> nat \<Rightarrow> 'r dp \<Rightarrow> 'r dp" where
  "read_x0_unit a i st =
     (let k = pin_samp a + sampx1 a + i;
          w = clamp01 (x0_W2 a ! i)
      in st\<lparr>W := (W st)(k := [W st k ! 0, w]),
            Wstar := (Wstar st)(k := [Wstar st k ! 0, logit w])\<rparr>)"

text \<open>Lines 229-242: the survey units, both columns of a unit at once.\<close>

definition read_survey_unit :: "inputs \<Rightarrow> nat \<Rightarrow> 'r dp \<Rightarrow> 'r dp" where
  "read_survey_unit a i st =
     (let k = pin_samp a + sampx1 a + sampx0 a + i;
          S_W = vec_of (\<lambda>j. clamp01 (sur_W a ! (j * sur_samp a + i)))
      in st\<lparr>W := (W st)(k := S_W),
            Wstar := (Wstar st)(k := map logit S_W)\<rparr>)"

text \<open>
  Lines 266-302 for one unit with \<^verbatim>\<open>X[i][0]\<close> equal to \<open>x\<close> and \<^verbatim>\<open>X[i][1]\<close> equal
  to \<open>y\<close>. \<^verbatim>\<open>ftrunc\<close> of R's math library is truncation towards zero. A unit the
  guard skips keeps the zeros the arrays start with.

  The two quotients of lines 272 and 273 divide by X and the quotient of lines 284, 290
  and 292 by 1 - X, so the bounds and the grid points are doubles with their infinities
  and NaN:
    \<^item> with X = 0 and 0 < Y < 1 the quotients are \<open>-inf\<close> and \<open>+inf\<close>, which \<^verbatim>\<open>fmax2\<close> and
      \<^verbatim>\<open>fmin2\<close> clip to the bounds 0 and 1: the grid has 1000 points and W2 is Y on
      each of them;
    \<^item> with X = 0 and Y outside [0, 1] one bound is infinite, the test of line 276 fails
      and the two grid points are infinite or NaN;
    \<^item> with X = 1 the bounds are finite and at most 0 apart, the test of line 276 fails
      and the W2 of the two grid points is a quotient by zero.
  In the first branch of line 276 both bounds are finite (\<open>wide_bounds_finite\<close> below),
  so that the arithmetic of lines 277-283 is that of real numbers.
\<close>

record tomo =
  minW1 :: dbl
  maxW1 :: dbl
  n_grid :: nat
  resid :: real
  W1g :: "nat \<Rightarrow> dbl"
  W2g :: "nat \<Rightarrow> dbl"

definition n_step :: nat where
  "n_step = 1000"

definition ftrunc :: "real \<Rightarrow> real" where
  "ftrunc v = (if 0 \<le> v then of_int \<lfloor>v\<rfloor> else of_int \<lceil>v\<rceil>)"

definition W1g_point :: "real \<Rightarrow> real \<Rightarrow> real \<Rightarrow> nat \<Rightarrow> real" where
  "W1g_point mn mx rs j =
     (let dtemp = 1 / real n_step;
          g0 = mn + (real j + 1) * dtemp - (dtemp + rs) / 2;
          g1 = (if g0 - mn < rs / 2 then g0 + rs / 2 else g0)
      in if mx - g1 < rs / 2 then g1 - rs / 2 else g1)"

text \<open>
  \<^verbatim>\<open>(X[i][1]-X[i][0]*W1g[i][j])/(1-X[i][0])\<close>: \<open>W2_line\<close> on doubles, as the code computes
  it, and \<open>W2_of\<close> on real numbers, which it is when \<open>w1\<close> is finite and X is not 1
  (\<open>W2_line_Fin\<close> below).
\<close>

definition W2_line :: "real \<Rightarrow> real \<Rightarrow> dbl \<Rightarrow> dbl" where
  "W2_line x y w1 = d_div (d_sub (Fin y) (d_mul (Fin x) w1)) (Fin (1 - x))"

definition W2_of :: "real \<Rightarrow> real \<Rightarrow> real \<Rightarrow> real" where
  "W2_of x y w1 = (y - x * w1) / (1 - x)"

definition calc_grid :: "real \<Rightarrow> real \<Rightarrow> tomo" where
  "calc_grid x y =
     (let dtemp = 1 / real n_step
      in if y \<noteq> 0 \<and> y \<noteq> 1 then
           let mn = fmax2 (Fin 0) (c_div (x + y - 1) x);
               mx = fmin2 (Fin 1) (c_div y x)
           in if d_less (Fin (2 * dtemp)) (d_sub mx mn) then
                let ng = nat \<lfloor>ftrunc (fin (d_sub mx mn) * real n_step)\<rfloor>;
                    rs = fin (d_sub mx mn) - real ng * dtemp;
                    g = (\<lambda>j. if j < ng then Fin (W1g_point (fin mn) (fin mx) rs j) else Fin 0)
                in \<lparr>minW1 = mn, maxW1 = mx, n_grid = ng, resid = rs,
                    W1g = g, W2g = (\<lambda>j. if j < ng then W2_line x y (g j) else Fin 0)\<rparr>
              else
                let g0 = d_add mn (d_div (d_sub mx mn) (Fin 3));
                    g1 = d_add mn (d_div (d_mul (Fin 2) (d_sub mx mn)) (Fin 3))
                in \<lparr>minW1 = mn, maxW1 = mx, n_grid = 2, resid = 0,
                    W1g = (\<lambda>j. if j = 0 then g0 else if j = 1 then g1 else Fin 0),
                    W2g = (\<lambda>j. if j = 0 then W2_line x y g0
                               else if j = 1 then W2_line x y g1 else Fin 0)\<rparr>
         else \<lparr>minW1 = Fin 0, maxW1 = Fin 0, n_grid = 0, resid = 0,
               W1g = (\<lambda>j. Fin 0), W2g = (\<lambda>j. Fin 0)\<rparr>)"

text \<open>Lines 313-317.\<close>

definition S_bvt :: "'r ext \<Rightarrow> inputs \<Rightarrow> mat" where
  "S_bvt E a =
     dinv E (mat_of (\<lambda>j k. pdtau0 a * of_int (pinu0 a - 1) * (S0 a ! j ! k) / (1 + pdtau0 a))) n_cov"

text \<open>Lines 323-331, one unit: the initial draw of its \<open>Sigma\<close> and \<open>mu\<close> under G0.\<close>

definition init_theta_unit :: "'r ext \<Rightarrow> inputs \<Rightarrow> nat \<Rightarrow> 'r dp \<Rightarrow> 'r dp" where
  "init_theta_unit E a i st =
     (let mtemp = dinv E (S0 a) n_cov;
          (IS, r1) = rWish E mtemp (pinu0 a) n_cov (rng st);
          Sg = copy_mat (dinv E (copy_mat IS) n_cov);
          mtemp1 = mat_of (\<lambda>j k. Sg ! j ! k / pdtau0 a);
          (m, r2) = rMVN E (mu0 a) mtemp1 n_cov r1
      in st\<lparr>mu := (mu st)(i := copy_vec m),
            Sigma := (Sigma st)(i := Sg),
            InvSigma := (InvSigma st)(i := copy_mat IS),
            rng := r2\<rparr>)"

text \<open>
  Everything before the main loop: the state with which iteration 0 starts, given the
  caller's buffers and the generator's state read by \<^verbatim>\<open>GetRNGstate\<close>.
\<close>

definition init_state :: "'r ext \<Rightarrow> inputs \<Rightarrow> draws \<Rightarrow> 'r \<Rightarrow> 'r dp" where
  "init_state E a bufs r0 =
     (let st0 = \<lparr>W = (\<lambda>i. if i < pin_samp a then init_W_row (Xd a i 1) else doubleArray n_cov),
                 Wstar = (\<lambda>i. doubleArray n_cov),
                 mu = (\<lambda>i. doubleArray n_cov),
                 Sigma = (\<lambda>i. doubleMatrix n_cov n_cov),
                 InvSigma = (\<lambda>i. doubleMatrix n_cov n_cov),
                 C = (\<lambda>i. 0), sortC = (\<lambda>i. 0), nstar = 0, alpha = 1,
                 prob_grid = (\<lambda>j. 0), rng = r0,
                 itempA = 0, itempS = 0, itempC = 0, out = bufs\<rparr>;
          st1 = (if x1 a = 1 then fold (read_x1_unit a) [0..<sampx1 a] st0 else st0);
          st2 = (if x0 a = 1 then fold (read_x0_unit a) [0..<sampx0 a] st1 else st1);
          st3 = (if survey a = 1 then fold (read_survey_unit a) [0..<sur_samp a] st2 else st2);
          st4 = fold (init_theta_unit E a) [0..<t_samp a] st3
      in st4\<lparr>nstar := t_samp a, C := (\<lambda>i. if i < t_samp a then i else C st4 i)\<rparr>)"

section \<open>gibbsDP.c: one sweep of the sampler\<close>

subsection \<open>The latent pair of a unit (lines 341-403)\<close>

text \<open>
  The exponent computed for one grid point, by link; with a link other than 1, 2, 3
  the code leaves \<^verbatim>\<open>prob_grid[j]\<close> as it was (\<open>old\<close>) before exponentiating it.
\<close>

definition grid_weight :: "'r ext \<Rightarrow> int \<Rightarrow> vec \<Rightarrow> mat \<Rightarrow> real \<Rightarrow> real \<Rightarrow> real \<Rightarrow> real" where
  "grid_weight E lk mu_i IS_i w1 w2 old =
     exp (if lk = 1 then
            dMVN E [ln w1 - ln (1 - w1), ln w2 - ln (1 - w2)] mu_i IS_i 2 1
              - ln w1 - ln w2 - ln (1 - w1) - ln (1 - w2)
          else if lk = 2 then
            (let v0 = qnorm E w1 0 1 1 0; v1 = qnorm E w2 0 1 1 0
             in dMVN E [v0, v1] mu_i IS_i 2 1 - dnorm E v0 0 1 1 - dnorm E v1 0 1 1)
          else if lk = 3 then
            dMVN E [- ln (- ln w1), - ln (- ln w2)] mu_i IS_i 2 1
              - ln w1 - ln w2 - ln (- ln w1) - ln (- ln w2)
          else old)"

text \<open>The running sum \<^verbatim>\<open>dtemp += x; cum[j] = dtemp\<close>.\<close>

fun cumsum :: "real \<Rightarrow> real list \<Rightarrow> real list" where
  "cumsum acc [] = []"
| "cumsum acc (x # xs) = (acc + x) # cumsum (acc + x) xs"

text \<open>
  The cumulative weights divided by the total \<^verbatim>\<open>dtemp\<close>, which is the last running
  sum (0 when there is no weight).
\<close>

definition normalize_cum :: "real list \<Rightarrow> dbl list" where
  "normalize_cum ws =
     (let cum = cumsum 0 ws; dtemp = last (0 # cum)
      in map (\<lambda>s. c_div s dtemp) cum)"

text \<open>
  \<^verbatim>\<open>while ((dtemp > prob_grid_cum[j]) && (j<(n_grid[i]-1))) j++;\<close>
\<close>

function grid_pick :: "real \<Rightarrow> dbl list \<Rightarrow> nat \<Rightarrow> nat \<Rightarrow> nat" where
  "grid_pick u cum ng j =
     (if c_gt u (cum ! j) \<and> j < ng - 1 then grid_pick u cum ng (Suc j) else j)"
  by pat_completeness auto
termination
  by (relation "measure (\<lambda>(u, cum, ng, j). ng - 1 - j)") auto

declare grid_pick.simps [simp del]

definition link_transform :: "'r ext \<Rightarrow> int \<Rightarrow> vec \<Rightarrow> vec \<Rightarrow> vec" where
  "link_transform E lk w old =
     (if lk = 1 then [ln (w ! 0) - ln (1 - w ! 0), ln (w ! 1) - ln (1 - w ! 1)]
      else if lk = 2 then [qnorm E (w ! 0) 0 1 1 0, qnorm E (w ! 1) 0 1 1 0]
      else if lk = 3 then [- ln (- ln (w ! 0)), - ln (- ln (w ! 1))]
      else old)"

text \<open>
  The grid draw of lines 343-388, made when the guard of line 342 holds. The grid points
  are read with \<open>fin\<close>. They are finite unless X is 1, or X is 0 and Y is outside
  [0, 1] (\<open>grid_finite\<close> below); for such a unit the C code goes on with an infinity or a
  NaN in \<^verbatim>\<open>prob_grid\<close> and in \<^verbatim>\<open>W[i]\<close>, which the weights and the pair of this model
  do not follow. The index bound of the selection loop is proved for every array of
  cumulative weights, finite or not.
\<close>

definition draw_W_unit :: "'r ext \<Rightarrow> inputs \<Rightarrow> nat \<Rightarrow> 'r dp \<Rightarrow> 'r dp" where
  "draw_W_unit E a i st =
     (let g = calc_grid (Xd a i 0) (Xd a i 1);
          pg = (\<lambda>j. if j < n_grid g
                    then grid_weight E (link a) (mu st i) (InvSigma st i)
                           (fin (W1g g j)) (fin (W2g g j)) (prob_grid st j)
                    else prob_grid st j);
          prob_grid_cum = normalize_cum (map pg [0..<n_grid g]);
          (u, r1) = unif_rand E (rng st);
          j = grid_pick u prob_grid_cum (n_grid g) 0
      in st\<lparr>W := (W st)(i := [fin (W1g g j), fin (W2g g j)]), prob_grid := pg, rng := r1\<rparr>)"

definition sample_W_unit :: "'r ext \<Rightarrow> inputs \<Rightarrow> nat \<Rightarrow> 'r dp \<Rightarrow> 'r dp" where
  "sample_W_unit E a i st =
     (let st1 = (if Xd a i 1 \<noteq> 0 \<and> Xd a i 1 \<noteq> 1 then draw_W_unit E a i st else st)
      in st1\<lparr>Wstar := (Wstar st1)(i := link_transform E (link a) (W st1 i) (Wstar st1 i))\<rparr>)"

subsection \<open>The homogeneous areas (lines 404-430)\<close>

definition update_x1_unit :: "'r ext \<Rightarrow> inputs \<Rightarrow> nat \<Rightarrow> 'r dp \<Rightarrow> 'r dp" where
  "update_x1_unit E a i st =
     (let k = pin_samp a + i;
          Sg = Sigma st k;
          dtemp = mu st k ! 1 + Sg ! 0 ! 1 / Sg ! 0 ! 0 * (Wstar st k ! 0 - mu st k ! 0);
          dtemp1 = Sg ! 1 ! 1 * (1 - Sg ! 0 ! 1 * Sg ! 0 ! 1 / (Sg ! 0 ! 0 * Sg ! 1 ! 1));
          (z, r1) = norm_rand E (rng st);
          Wstar1 = (Wstar st)(k := [Wstar st k ! 0, z * sqrt dtemp1 + dtemp])
      in st\<lparr>Wstar := Wstar1,
            W := (W st)(k := [W st k ! 0, exp (Wstar1 k ! 1) / (1 + exp (Wstar1 k ! 1))]),
            rng := r1\<rparr>)"

text \<open>
  Line 427 writes \<^verbatim>\<open>Wstar[n_samp+i][0]\<close>; line 428 reads \<^verbatim>\<open>Wstar[n_samp+x1_samp+i][0]\<close>.
\<close>

definition update_x0_unit :: "'r ext \<Rightarrow> inputs \<Rightarrow> nat \<Rightarrow> 'r dp \<Rightarrow> 'r dp" where
  "update_x0_unit E a i st =
     (let k = pin_samp a + sampx1 a + i;
          Sg = Sigma st k;
          dtemp = mu st k ! 0 + Sg ! 0 ! 1 / Sg ! 1 ! 1 * (Wstar st k ! 1 - mu st k ! 1);
          dtemp1 = Sg ! 0 ! 0 * (1 - Sg ! 0 ! 1 * Sg ! 0 ! 1 / (Sg ! 0 ! 0 * Sg ! 1 ! 1));
          (z, r1) = norm_rand E (rng st);
          Wstar1 = (Wstar st)(pin_samp a + i :=
                      [z * sqrt dtemp1 + dtemp, Wstar st (pin_samp a + i) ! 1])
      in st\<lparr>Wstar := Wstar1,
            W := (W st)(k := [exp (Wstar1 k ! 0) / (1 + exp (Wstar1 k ! 0)), W st k ! 1]),
            rng := r1\<rparr>)"

subsection \<open>The Polya urn (lines 433-495)\<close>

text \<open>The weight vector \<open>q\<close> of unit \<open>i\<close>, index by index (lines 438-443).\<close>

definition q_weights :: "'r ext \<Rightarrow> inputs \<Rightarrow> 'r dp \<Rightarrow> nat \<Rightarrow> real list" where
  "q_weights E a st i =
     map (\<lambda>j. if j \<noteq> i then dMVN E (Wstar st i) (mu st j) (InvSigma st j) 2 0
              else alpha st * dMVT E (Wstar st i) (mu0 a) (S_bvt E a) (pinu0 a - 1) 2 0)
       [0..<t_samp a]"

text \<open>
  \<^verbatim>\<open>while (dtemp > qq[j]) j++;\<close> has no bound on \<open>j\<close>: a read past the end of \<open>qq\<close>
  has no defined value, and the walk has no result (\<open>None\<close>) if it gets there.
\<close>

function polya_pick :: "real \<Rightarrow> dbl list \<Rightarrow> nat \<Rightarrow> nat option" where
  "polya_pick u qq j =
     (if length qq \<le> j then None
      else if c_gt u (qq ! j) then polya_pick u qq (Suc j)
      else Some j)"
  by pat_completeness auto
termination
  by (relation "measure (\<lambda>(u, qq, j). length qq - j)") auto

declare polya_pick.simps [simp del]

text \<open>Lines 459-481: a new table for unit \<open>i\<close>.\<close>

definition new_table :: "'r ext \<Rightarrow> inputs \<Rightarrow> nat \<Rightarrow> 'r dp \<Rightarrow> 'r dp" where
  "new_table E a i st =
     (let tau0 = pdtau0 a;
          Sn = mat_of (\<lambda>k l. S0 a ! k ! l
                 + tau0 * (Wstar st i ! k - mu0 a ! k) * (Wstar st i ! l - mu0 a ! l) / (tau0 + 1));
          mtemp = dinv E Sn n_cov;
          (IS, r1) = rWish E mtemp (pinu0 a + 1) n_cov (rng st);
          Sg = copy_mat (dinv E (copy_mat IS) n_cov);
          mun = vec_of (\<lambda>k. (tau0 * mu0 a ! k + Wstar st i ! k) / (tau0 + 1));
          mtemp1 = mat_of (\<lambda>k l. Sg ! k ! l / (tau0 + 1));
          (m, r2) = rMVN E mun mtemp1 n_cov r1
      in st\<lparr>mu := (mu st)(i := copy_vec m),
            Sigma := (Sigma st)(i := Sg),
            InvSigma := (InvSigma st)(i := copy_mat IS),
            C := (C st)(i := nstar st),
            nstar := nstar st + 1,
            rng := r2\<rparr>)"

text \<open>Lines 482-493: unit \<open>i\<close> joins the table of unit \<open>j\<close>.\<close>

definition join_table :: "nat \<Rightarrow> nat \<Rightarrow> 'r dp \<Rightarrow> 'r dp" where
  "join_table i j st =
     st\<lparr>mu := (mu st)(i := copy_vec (mu st j)),
        Sigma := (Sigma st)(i := copy_mat (Sigma st j)),
        InvSigma := (InvSigma st)(i := copy_mat (InvSigma st j)),
        C := (C st)(i := C st j)\<rparr>"

definition sweep_unit :: "'r ext \<Rightarrow> inputs \<Rightarrow> nat \<Rightarrow> 'r dp \<Rightarrow> 'r dp option" where
  "sweep_unit E a i st =
     (let qq = normalize_cum (q_weights E a st i);
          (u, r1) = unif_rand E (rng st);
          st1 = st\<lparr>rng := r1\<rparr>
      in case polya_pick u qq 0 of
           None \<Rightarrow> None
         | Some j \<Rightarrow>
             (let st2 = (if j = i then new_table E a i st1 else join_table i j st1)
              in Some (st2\<lparr>sortC := (sortC st2)(i := C st2 i)\<rparr>)))"

fun opt_fold :: "('a \<Rightarrow> 's \<Rightarrow> 's option) \<Rightarrow> 'a list \<Rightarrow> 's \<Rightarrow> 's option" where
  "opt_fold f [] s = Some s"
| "opt_fold f (x # xs) s = (case f x s of None \<Rightarrow> None | Some s' \<Rightarrow> opt_fold f xs s')"

subsection \<open>The remix pass (lines 497-573)\<close>

text \<open>
  The inner loop of lines 517-525 from position \<open>i\<close>: the position it stops at, the
  entries \<^verbatim>\<open>label[0..nj)\<close>, the rows \<^verbatim>\<open>Wstarmix[0..nj)\<close> and the sums \<^verbatim>\<open>Wstar_bar\<close>.
  The code tests \<^verbatim>\<open>sortC[i]==j\<close> before \<^verbatim>\<open>i<t_samp\<close>; the loop goes on only if both
  hold. At the end of the last block the first test reads \<^verbatim>\<open>sortC[t_samp]\<close>, one cell
  past the array: whatever it reads, the second test fails and the loop stops.
\<close>

function gather ::
  "nat \<Rightarrow> nat list \<Rightarrow> nat list \<Rightarrow> (nat \<Rightarrow> vec) \<Rightarrow> nat \<Rightarrow> nat \<Rightarrow> nat list \<Rightarrow> vec list \<Rightarrow> vec
     \<Rightarrow> nat \<times> nat list \<times> vec list \<times> vec" where
  "gather t srt idx Wst j i label Wstarmix Wstar_bar =
     (if srt ! i = j \<and> i < t then
        (let l = idx ! i;
             row = vec_of (\<lambda>k. Wst l ! k)
         in gather t srt idx Wst j (Suc i) (label @ [l]) (Wstarmix @ [row])
              (vec_of (\<lambda>k. Wstar_bar ! k + row ! k)))
      else (i, label, Wstarmix, Wstar_bar))"
  by pat_completeness auto
termination
  by (relation "measure (\<lambda>(t, srt, idx, Wst, j, i, label, Wstarmix, Wstar_bar). t - i)") auto

text \<open>
  Lines 528-556: the parameter of a block, drawn from the block's rows. The result is
  the contents of \<^verbatim>\<open>mu_mix\<close>, \<^verbatim>\<open>Sigma_mix\<close> and \<^verbatim>\<open>InvSigma_mix\<close>.
\<close>

type_synonym theta = "vec \<times> mat \<times> mat"

definition draw_mix :: "'r ext \<Rightarrow> inputs \<Rightarrow> vec list \<Rightarrow> vec \<Rightarrow> 'r \<Rightarrow> theta \<times> 'r" where
  "draw_mix E a Wstarmix Wstar_sum r =
     (let tau0 = pdtau0 a;
          nj = length Wstarmix;
          Wstar_bar = vec_of (\<lambda>k. Wstar_sum ! k / real nj);
          Snj1 = foldl (\<lambda>S row. mat_of (\<lambda>k l. S ! k ! l
                    + (row ! k - Wstar_bar ! k) * (row ! l - Wstar_bar ! l)))
                   (copy_mat (S0 a)) Wstarmix;
          Snj = mat_of (\<lambda>k l. Snj1 ! k ! l
                  + tau0 * real nj * (Wstar_bar ! k - mu0 a ! k) * (Wstar_bar ! l - mu0 a ! l)
                      / (tau0 + real nj));
          mtemp = dinv E Snj n_cov;
          (IS, r1) = rWish E mtemp (pinu0 a + int nj) n_cov r;
          InvSigma_mix = copy_mat IS;
          Sigma_mix = copy_mat (dinv E InvSigma_mix n_cov);
          munj = vec_of (\<lambda>k. (tau0 * mu0 a ! k + real nj * Wstar_bar ! k) / (tau0 + real nj));
          mtemp1 = mat_of (\<lambda>k l. Sigma_mix ! k ! l / (tau0 + real nj));
          (m, r2) = rMVN E munj mtemp1 n_cov r1
      in ((copy_vec m, Sigma_mix, InvSigma_mix), r2))"

text \<open>Lines 562-571 for one entry of \<open>label\<close>.\<close>

definition assign_mix :: "theta \<Rightarrow> nat \<Rightarrow> 'r dp \<Rightarrow> 'r dp" where
  "assign_mix th l st =
     st\<lparr>C := (C st)(l := nstar st),
        mu := (mu st)(l := copy_vec (fst th)),
        Sigma := (Sigma st)(l := copy_mat (fst (snd th))),
        InvSigma := (InvSigma st)(l := copy_mat (snd (snd th)))\<rparr>"

text \<open>One round of the outer loop of lines 506-573, started at position \<open>i\<close>.\<close>

definition remix_block ::
  "'r ext \<Rightarrow> inputs \<Rightarrow> nat list \<Rightarrow> nat list \<Rightarrow> nat \<Rightarrow> 'r dp \<Rightarrow> nat \<times> theta \<times> 'r dp" where
  "remix_block E a srt idx i st =
     (let (i', label, Wstarmix, Wstar_sum) =
            gather (t_samp a) srt idx (Wstar st) (srt ! i) i [] [] (vec_of (\<lambda>k. 0));
          (th, r1) = draw_mix E a Wstarmix Wstar_sum (rng st);
          st1 = fold (assign_mix th) label (st\<lparr>rng := r1\<rparr>)
      in (i', th, st1\<lparr>nstar := nstar st1 + 1\<rparr>))"

declare gather.simps [simp del]

text \<open>The inner loop moves forward and stays inside the array.\<close>

lemma gather_pos:
  "i \<le> fst (gather t srt idx Wst j i label Wstarmix Wstar_bar) \<and>
   (i < t \<longrightarrow> srt ! i = j \<longrightarrow> i < fst (gather t srt idx Wst j i label Wstarmix Wstar_bar)) \<and>
   (i \<le> t \<longrightarrow> fst (gather t srt idx Wst j i label Wstarmix Wstar_bar) \<le> t)"
proof (induction t srt idx Wst j i label Wstarmix Wstar_bar rule: gather.induct)
  case (1 t srt idx Wst j i label Wstarmix Wstar_bar)
  show ?case
  proof (cases "srt ! i = j \<and> i < t")
    case True
    have eq: "gather t srt idx Wst j i label Wstarmix Wstar_bar =
       gather t srt idx Wst j (Suc i) (label @ [idx ! i]) (Wstarmix @ [vec_of (\<lambda>k. Wst (idx ! i) ! k)])
              (vec_of (\<lambda>k. Wstar_bar ! k + vec_of (\<lambda>k. Wst (idx ! i) ! k) ! k))"
      using True gather.simps [of t srt idx Wst j i label Wstarmix Wstar_bar] by (auto simp: Let_def)
    from "1.IH" [OF True refl refl] True show ?thesis
      unfolding eq by auto
  next
    case False
    have eq: "gather t srt idx Wst j i label Wstarmix Wstar_bar = (i, label, Wstarmix, Wstar_bar)"
      using False gather.simps [of t srt idx Wst j i label Wstarmix Wstar_bar] by auto
    show ?thesis unfolding eq using False by auto
  qed
qed

lemma remix_block_pos:
  "i < t_samp a \<Longrightarrow> i < fst (remix_block E a srt idx i st) \<and> fst (remix_block E a srt idx i st) \<le> t_samp a"
  using gather_pos [of i "t_samp a" srt idx "Wstar st" "srt ! i" "[]" "[]" "vec_of (\<lambda>k. 0)"]
  by (auto simp: remix_block_def Let_def split: prod.splits)

text \<open>
  The outer loop from position \<open>i\<close>. Beside the state it returns the parameters drawn,
  block by block, in the order of the blocks.
\<close>

function remix_loop ::
  "'r ext \<Rightarrow> inputs \<Rightarrow> nat list \<Rightarrow> nat list \<Rightarrow> nat \<Rightarrow> 'r dp \<Rightarrow> theta list \<Rightarrow> 'r dp \<times> theta list" where
  "remix_loop E a srt idx i st ths =
     (if i < t_samp a then
        (case remix_block E a srt idx i st of
           (i', th, st1) \<Rightarrow> remix_loop E a srt idx i' st1 (ths @ [th]))
      else (st, ths))"
  by pat_completeness auto
termination
  apply (relation "measure (\<lambda>(E, a, srt, idx, i, st, ths). t_samp a - i)")
   apply simp
  subgoal for E a srt idx i st ths x1a x2a x21 x22
    using remix_block_pos [of i a E srt idx st]
    by (cases "remix_block E a srt idx i st") auto
  done

declare remix_loop.simps [simp del]

text \<open>
  Lines 498-502 and the loop: \<^verbatim>\<open>sortC\<close> holds the labels the sweep left,
  \<^verbatim>\<open>indexC\<close> starts as the identity, \<^verbatim>\<open>R_qsort_int_I\<close> sorts \<^verbatim>\<open>sortC\<close> and carries
  \<^verbatim>\<open>indexC\<close> along, \<^verbatim>\<open>nstar\<close> restarts at 0.
\<close>

definition remix_log :: "'r ext \<Rightarrow> inputs \<Rightarrow> 'r dp \<Rightarrow> 'r dp \<times> theta list" where
  "remix_log E a st =
     (let t = t_samp a;
          (srt, idx) = R_qsort_int_I E (map (sortC st) [0..<t]) [0..<t] 1 t;
          (st1, ths) = remix_loop E a srt idx 0 (st\<lparr>nstar := 0\<rparr>) []
      in (st1\<lparr>sortC := (\<lambda>i. if i < t then srt ! i else sortC st1 i)\<rparr>, ths))"

definition remix :: "'r ext \<Rightarrow> inputs \<Rightarrow> 'r dp \<Rightarrow> 'r dp" where
  "remix E a st = fst (remix_log E a st)"

text \<open>
  What holds of the state and of the parameters drawn so far each time the outer loop is
  at position \<open>i\<close> of the sorted arrays: the units at the positions before \<open>i\<close>
  carry the labels below \<^verbatim>\<open>nstar\<close>, all of them used, each with the parameter drawn
  for its label; two of them share a label exactly if their sorted keys are equal, and
  every key from \<open>i\<close> on is larger than the keys before.
\<close>

definition remix_inv :: "nat list \<Rightarrow> nat list \<Rightarrow> nat \<Rightarrow> nat \<Rightarrow> 'r dp \<Rightarrow> theta list \<Rightarrow> bool" where
  "remix_inv srt idx t i st ths \<longleftrightarrow>
     length ths = nstar st \<and> nstar st \<le> i \<and>
     (\<forall>k<i. C st (idx ! k) < nstar st \<and>
            (mu st (idx ! k), Sigma st (idx ! k), InvSigma st (idx ! k)) = ths ! C st (idx ! k)) \<and>
     (\<forall>m<nstar st. \<exists>k<i. C st (idx ! k) = m) \<and>
     (\<forall>k<i. \<forall>k'<i. (C st (idx ! k) = C st (idx ! k')) = (srt ! k = srt ! k')) \<and>
     (\<forall>k<i. \<forall>k'. i \<le> k' \<and> k' < t \<longrightarrow> srt ! k < srt ! k')"

subsection \<open>The concentration parameter (lines 575-591)\<close>

definition update_alpha :: "'r ext \<Rightarrow> inputs \<Rightarrow> 'r dp \<Rightarrow> 'r dp" where
  "update_alpha E a st =
     (if pinUpdate a \<noteq> 0 then
        (let dtemp1 = alpha st + 1;
             dtemp2 = real (t_samp a);
             (b, r1) = rbeta E dtemp1 dtemp2 (rng st);
             dtemp = pdb0 a - ln b;
             p = (pda0 a + real (nstar st) - 1) / (real (t_samp a) * dtemp);
             (u, r2) = unif_rand E r1
         in if u < p then
              (let (g, r3) = rgamma E (pda0 a + real (nstar st)) (1 / dtemp) r2
               in st\<lparr>alpha := g, rng := r3\<rparr>)
            else
              (let (g, r3) = rgamma E (pda0 a + real (nstar st) - 1) (1 / dtemp) r2
               in st\<lparr>alpha := g, rng := r3\<rparr>))
      else st)"

subsection \<open>Storage (lines 593-631)\<close>

text \<open>Lines 602-628 for one unit: the draws written at \<^verbatim>\<open>itempS\<close>.\<close>

definition store_unit :: "'r ext \<Rightarrow> inputs \<Rightarrow> nat \<Rightarrow> 'r dp \<Rightarrow> 'r dp" where
  "store_unit E a i st =
     (let s = itempS st;
          o1 = (out st)\<lparr>pdSMu0 := (pdSMu0 (out st))(s := mu st i ! 0),
                         pdSMu1 := (pdSMu1 (out st))(s := mu st i ! 1),
                         pdSSig00 := (pdSSig00 (out st))(s := Sigma st i ! 0 ! 0),
                         pdSSig01 := (pdSSig01 (out st))(s := Sigma st i ! 0 ! 1),
                         pdSSig11 := (pdSSig11 (out st))(s := Sigma st i ! 1 ! 1),
                         pdSW1 := (pdSW1 (out st))(s := W st i ! 0),
                         pdSW2 := (pdSW2 (out st))(s := W st i ! 1)\<rparr>;
          st1 = st\<lparr>out := o1\<rparr>;
          st2 =
            (if pred a \<noteq> 0 then
               (let (vtemp, r1) = rMVN E (mu st1 i) (Sigma st1 i) n_cov (rng st1);
                    wt = (if link a = 1 then
                            Some (exp (vtemp ! 0) / (exp (vtemp ! 0) + 1),
                                  exp (vtemp ! 1) / (exp (vtemp ! 1) + 1))
                          else if link a = 2 then
                            Some (pnorm E (vtemp ! 0) 0 1 1 0, pnorm E (vtemp ! 1) 0 1 1 0)
                          else if link a = 3 then
                            Some (exp (- exp (- vtemp ! 0)), exp (- exp (- vtemp ! 1)))
                          else None);
                    o2 = (case wt of
                            None \<Rightarrow> o1
                          | Some (w1, w2) \<Rightarrow>
                              o1\<lparr>pdSWt1 := (pdSWt1 o1)(s := w1), pdSWt2 := (pdSWt2 o1)(s := w2)\<rparr>);
                    o3 = o2\<lparr>pdY := (pdY o2)(s := pdSWt1 o2 s * Xd a i 0 + pdSWt2 o2 s * (1 - Xd a i 0))\<rparr>
                in st1\<lparr>out := o3, rng := r1\<rparr>)
             else st1)
      in st2\<lparr>itempS := s + 1\<rparr>)"

definition store_draws :: "'r ext \<Rightarrow> inputs \<Rightarrow> nat \<Rightarrow> 'r dp \<Rightarrow> 'r dp" where
  "store_draws E a main_loop st =
     (if burn_in a \<le> main_loop then
        (let st1 = st\<lparr>itempC := itempC st + 1\<rparr>
         in if itempC st1 = pinth a then
              (let st2 =
                     (if pinUpdate a \<noteq> 0 then
                        st1\<lparr>out := (out st1)\<lparr>pdSa := (pdSa (out st1))(itempA st1 := alpha st1),
                                                pdSn := (pdSn (out st1))(itempA st1 := nstar st1)\<rparr>,
                            itempA := itempA st1 + 1\<rparr>
                      else st1);
                   st3 = fold (store_unit E a) [0..<pin_samp a] st2
               in st3\<lparr>itempC := 0\<rparr>)
            else st1)
      else st)"

section \<open>gibbsDP.c: the main loop and the whole call\<close>

text \<open>One round of the main loop, \<open>None\<close> when the urn's walk leaves its array.\<close>

definition gibbs_iter :: "'r ext \<Rightarrow> inputs \<Rightarrow> nat \<Rightarrow> 'r dp \<Rightarrow> 'r dp option" where
  "gibbs_iter E a main_loop st =
     (let st1 = fold (sample_W_unit E a) [0..<pin_samp a] st;
          st2 = (if x1 a = 1 then fold (update_x1_unit E a) [0..<sampx1 a] st1 else st1);
          st3 = (if x0 a = 1 then fold (update_x0_unit E a) [0..<sampx0 a] st2 else st2)
      in case opt_fold (sweep_unit E a) [0..<t_samp a] st3 of
           None \<Rightarrow> None
         | Some st4 \<Rightarrow> Some (store_draws E a main_loop (update_alpha E a (remix E a st4))))"

text \<open>The rounds \<open>main_loop, main_loop + 1, ...\<close>, \<open>k\<close> of them.\<close>

fun gibbs_loop :: "'r ext \<Rightarrow> inputs \<Rightarrow> nat \<Rightarrow> nat \<Rightarrow> 'r dp \<Rightarrow> 'r dp option" where
  "gibbs_loop E a 0 main_loop st = Some st"
| "gibbs_loop E a (Suc k) main_loop st =
     (case gibbs_iter E a main_loop st of
        None \<Rightarrow> None
      | Some st1 \<Rightarrow> gibbs_loop E a k (Suc main_loop) st1)"

definition cDPeco :: "'r ext \<Rightarrow> inputs \<Rightarrow> draws \<Rightarrow> 'r \<Rightarrow> 'r dp option" where
  "cDPeco E a bufs r0 = gibbs_loop E a (n_gen a) 0 (init_state E a bufs r0)"

section \<open>Concrete values for the worked examples\<close>

text \<open>
  An environment in which every outside function is a simple closed function, so that
  the definitions above can be run: the generator's state counts the draws made.
\<close>

definition test_ext :: "nat ext" where
  "test_ext =
     \<lparr>unif_rand = (\<lambda>r. (1 / 2, Suc r)),
      norm_rand = (\<lambda>r. (1, Suc r)),
      rbeta = (\<lambda>p q r. (1 / 2, Suc r)),
      rgamma = (\<lambda>p q r. (p * q, Suc r)),
      rWish = (\<lambda>S df n r. (S, Suc r)),
      rMVN = (\<lambda>m V n r. (m, Suc r)),
      dinv = (\<lambda>M n. M),
      dMVN = (\<lambda>y m IS n lg. 1),
      dMVT = (\<lambda>y m IS nu n lg. 1),
      qnorm = (\<lambda>p m s lt lg. p),
      dnorm = (\<lambda>v m s lg. 0),
      pnorm = (\<lambda>v m s lt lg. 1 / 2),
      R_qsort_int_I = (\<lambda>v I i j. (map fst (sort_key fst (zip v I)), map snd (sort_key fst (zip v I)))),
      dBVNtomo = (\<lambda>v p lg normc. 1),
      invLogit = (\<lambda>v. 1 / (1 + exp (- v))),
      Rdqags = (\<lambda>f lb ub ea er lim.
         \<lparr>q_result = 1, q_anserr = 0, q_neval = 21, q_ier = 0, q_last = 1, q_out = []\<rparr>)\<rparr>"

definition test_param :: "real \<Rightarrow> real \<Rightarrow> int \<Rightarrow> Param" where
  "test_param x y sf =
     \<lparr>caseP = \<lparr>caseP_mu = [0, 0], caseP_X = x, caseP_Y = y, caseP_normcT = 1,
               caseP_suff = sf, caseP_Wbounds = [[0, 1], [0, 1]]\<rparr>,
      setP = \<lparr>setP_ncar = 0, setP_Sigma = [[1, 0], [0, 1]], setP_InvSigma = [[1, 0], [0, 1]],
              setP_Sigma3 = [], setP_InvSigma3 = []\<rparr>\<rparr>"

definition test_io :: "string \<Rightarrow> bool \<Rightarrow> io" where
  "test_io buf eof = \<lparr>io_out = [], io_stdin = buf, io_eof = eof\<rparr>"

definition failing_ext :: "nat ext" where
  "failing_ext = test_ext\<lparr>Rdqags := (\<lambda>f lb ub ea er lim.
         \<lparr>q_result = 3, q_anserr = 1, q_neval = 2079, q_ier = 1, q_last = 100, q_out = []\<rparr>)\<rparr>"

definition test_inputs :: inputs where
  "test_inputs =
     \<lparr>n_gen = 2, link = 1, pdX = [1 / 2, 1 / 4], pin_samp = 1, pinu0 = 4, pdtau0 = 1,
      mu0 = [0, 0], pdS0 = [1, 0, 0, 1], pinUpdate = 0, burn_in = 0, pinth = 1, pred = 0,
      pda0 = 1, pdb0 = 1, survey = 0, sur_samp = 0, sur_W = [],
      x1 = 1, sampx1 = 1, x1_W1 = [1 / 2], x0 = 1, sampx0 = 1, x0_W2 = [1 / 2]\<rparr>"

definition zero_X_inputs :: inputs where
  "zero_X_inputs = test_inputs\<lparr>pdX := [0, 1 / 2]\<rparr>"

definition zero_Y_inputs :: inputs where
  "zero_Y_inputs = test_inputs\<lparr>pdX := [1 / 2, 0]\<rparr>"

definition test_draws :: draws where
  "test_draws =
     \<lparr>pdSMu0 = (\<lambda>k. 0), pdSMu1 = (\<lambda>k. 0), pdSSig00 = (\<lambda>k. 0), pdSSig01 = (\<lambda>k. 0),
      pdSSig11 = (\<lambda>k. 0), pdSW1 = (\<lambda>k. 0), pdSW2 = (\<lambda>k. 0), pdSWt1 = (\<lambda>k. 0),
      pdSWt2 = (\<lambda>k. 0), pdY = (\<lambda>k. 0), pdSa = (\<lambda>k. 7), pdSn = (\<lambda>k. 99)\<rparr>"

definition test_state :: "nat dp" where
  "test_state =
     \<lparr>W = (\<lambda>i. [1 / 2, 1 / 2]), Wstar = (\<lambda>i. [0, 0]), mu = (\<lambda>i. [0, 0]),
      Sigma = (\<lambda>i. [[1, 0], [0, 1]]), InvSigma = (\<lambda>i. [[1, 0], [0, 1]]),
      C = (\<lambda>i. i), sortC = (\<lambda>i. i), nstar = 3, alpha = 1, prob_grid = (\<lambda>j. 0), rng = 0,
      itempA = 0, itempS = 0, itempC = 0, out = test_draws\<rparr>"

definition urn_ext :: "nat ext" where
  "urn_ext = test_ext\<lparr>unif_rand := (\<lambda>r. (3 / 10, Suc r)),
                        dMVN := (\<lambda>y m IS n lg. 2),
                        dMVT := (\<lambda>y m IS nu n lg. 3)\<rparr>"

section \<open>The doubles of the bounds and the grid\<close>

lemma c_div_Fin: "b \<noteq> 0 \<Longrightarrow> c_div a b = Fin (a / b)"
  by (simp add: c_div_def)

lemma fmax2_Fin: "fmax2 (Fin a) (Fin b) = Fin (max a b)"
  by (auto simp: fmax2_def)

lemma fmin2_Fin: "fmin2 (Fin a) (Fin b) = Fin (min a b)"
  by (auto simp: fmin2_def)

lemma fmax2_0:
  "(\<exists>a. fmax2 (Fin 0) q = Fin a \<and> 0 \<le> a) \<or> fmax2 (Fin 0) q = PInf \<or> fmax2 (Fin 0) q = NaN"
  by (cases q) (auto simp: fmax2_def)

lemma fmin2_1:
  "(\<exists>b. fmin2 (Fin 1) q = Fin b \<and> b \<le> 1) \<or> fmin2 (Fin 1) q = NInf \<or> fmin2 (Fin 1) q = NaN"
  by (cases q) (auto simp: fmin2_def)

text \<open>
  When the test of line 276 succeeds both bounds are finite: a lower bound is never
  \<open>-inf\<close> and an upper bound never \<open>+inf\<close>, so that a difference that is not a finite
  number is \<open>-inf\<close> or a NaN.
\<close>

lemma wide_bounds_finite:
  assumes "d_less (Fin t) (d_sub (fmin2 (Fin 1) q2) (fmax2 (Fin 0) q1))"
  shows "\<exists>a b. fmax2 (Fin 0) q1 = Fin a \<and> fmin2 (Fin 1) q2 = Fin b \<and>
               0 \<le> a \<and> b \<le> 1 \<and> t < b - a"
  using assms fmax2_0 [of q1] fmin2_1 [of q2] by (auto simp: d_sub_def)

lemma calc_grid_bounds:
  assumes "y \<noteq> 0" and "y \<noteq> 1"
  shows "minW1 (calc_grid x y) = fmax2 (Fin 0) (c_div (x + y - 1) x) \<and>
         maxW1 (calc_grid x y) = fmin2 (Fin 1) (c_div y x)"
  using assms by (simp add: calc_grid_def Let_def)

lemma W2_line_Fin: "x \<noteq> 1 \<Longrightarrow> W2_line x y (Fin w) = Fin (W2_of x y w)"
  by (simp add: W2_line_def W2_of_def d_sub_def c_div_def)

text \<open>
  The number of grid points of a unit that is sampled is between 2 and \<^verbatim>\<open>n_step\<close>,
  whatever the margins are.
\<close>

lemma n_grid_bounds:
  assumes "y \<noteq> 0" and "y \<noteq> 1"
  shows "2 \<le> n_grid (calc_grid x y) \<and> n_grid (calc_grid x y) \<le> n_step"
proof -
  define mn where "mn = fmax2 (Fin 0) (c_div (x + y - 1) x)"
  define mx where "mx = fmin2 (Fin 1) (c_div y x)"
  define wide where "wide = d_less (Fin (2 * (1 / real n_step))) (d_sub mx mn)"
  define w where "w = fin (d_sub mx mn) * real n_step"
  define k where "k = \<lfloor>w\<rfloor>"
  have ng: "n_grid (calc_grid x y) = (if wide then nat \<lfloor>ftrunc w\<rfloor> else 2)"
    using assms by (simp add: calc_grid_def Let_def mn_def mx_def w_def wide_def)
  show ?thesis
  proof (cases wide)
    case True
    then have "d_less (Fin (2 * (1 / real n_step)))
                 (d_sub (fmin2 (Fin 1) (c_div y x)) (fmax2 (Fin 0) (c_div (x + y - 1) x)))"
      by (simp only: wide_def mx_def mn_def)
    from wide_bounds_finite [OF this] obtain a b where
      ab: "mn = Fin a" "mx = Fin b" "0 \<le> a" "b \<le> 1" "2 * (1 / real n_step) < b - a"
      unfolding mn_def mx_def by blast
    have wv: "w = (b - a) * real n_step"
      using ab(1,2) by (simp add: w_def d_sub_def)
    have "b - a \<le> 1" using ab(3,4) by simp
    then have w: "w \<le> 1000" by (simp add: wv n_step_def)
    have pos: "2 < w" using ab(5) by (simp add: wv n_step_def)
    then have "0 \<le> w" by simp
    then have ft: "ftrunc w = of_int k"
      by (simp only: ftrunc_def k_def if_True)
    have k2: "2 \<le> k" using pos unfolding k_def by linarith
    have k1000: "k \<le> 1000" using w unfolding k_def by linarith
    have "n_grid (calc_grid x y) = nat k"
      using True ng ft by simp
    moreover have "2 \<le> nat k" using k2 by linarith
    moreover have "nat k \<le> 1000" using k1000 by linarith
    ultimately show ?thesis by (simp add: n_step_def)
  next
    case False
    with ng show ?thesis by (simp add: n_step_def)
  qed
qed

text \<open>
  The bounds and the grid points are finite numbers unless X is 1, or X is 0 and Y is
  outside [0, 1]; the W2 of a grid point is then the quotient of real numbers.
\<close>

lemma bounds_finite:
  assumes "y \<noteq> 0" and "y \<noteq> 1" and "x = 0 \<longrightarrow> 0 < y \<and> y < 1"
  shows "\<exists>a b. fmax2 (Fin 0) (c_div (x + y - 1) x) = Fin a \<and> fmin2 (Fin 1) (c_div y x) = Fin b"
proof (cases "x = 0")
  case True
  with assms show ?thesis by (simp add: c_div_def fmax2_def fmin2_def)
next
  case False
  then show ?thesis by (simp add: c_div_Fin fmax2_Fin fmin2_Fin)
qed

lemma grid_finite:
  assumes "y \<noteq> 0" and "y \<noteq> 1" and "x \<noteq> 1" and "x = 0 \<longrightarrow> 0 < y \<and> y < 1"
    and "j < n_grid (calc_grid x y)"
  shows "\<exists>w1. W1g (calc_grid x y) j = Fin w1 \<and> W2g (calc_grid x y) j = Fin (W2_of x y w1)"
proof -
  from bounds_finite [OF assms(1,2,4)] obtain a b where
    ab: "fmax2 (Fin 0) (c_div (x + y - 1) x) = Fin a" "fmin2 (Fin 1) (c_div y x) = Fin b"
    by blast
  show ?thesis
  proof (cases "2 * (1 / real n_step) < b - a")
    case True
    with assms(1,2,3,5) ab show ?thesis
      by (simp add: calc_grid_def Let_def d_sub_def W2_line_Fin)
  next
    case False
    with assms(1,2,5) ab have "j < 2" by (simp add: calc_grid_def Let_def d_sub_def)
    then have "j = 0 \<or> j = 1" by auto
    with False assms(1,2,3) ab show ?thesis
      by (auto simp: calc_grid_def Let_def d_sub_def c_div_def W2_line_Fin)
  qed
qed

text \<open>
  The two margins at which the code divides by zero. With X = 0 and 0 < Y < 1 the
  bounds are 0 and 1, the grid has \<^verbatim>\<open>n_step\<close> points at the middles of the steps and W2
  is Y everywhere. With X = 1 and 0 < Y < 1 both bounds are Y, the grid has two points
  with W1 = Y, and their W2 is the NaN of 0/0.
\<close>

lemma calc_grid_X_0:
  assumes "0 < y" and "y < 1"
  shows "minW1 (calc_grid 0 y) = Fin 0 \<and> maxW1 (calc_grid 0 y) = Fin 1 \<and>
         n_grid (calc_grid 0 y) = n_step \<and>
         (\<forall>j < n_step. W1g (calc_grid 0 y) j = Fin ((real j + 1 / 2) / real n_step) \<and>
                        W2g (calc_grid 0 y) j = Fin y)"
proof -
  have mn: "fmax2 (Fin 0) (c_div (0 + y - 1) 0) = Fin 0"
    using assms by (simp add: c_div_def fmax2_def)
  have mx: "fmin2 (Fin 1) (c_div y 0) = Fin 1"
    using assms by (simp add: c_div_def fmin2_def)
  have ft: "ftrunc 1000 = 1000"
    by (simp add: ftrunc_def)
  have ng: "n_grid (calc_grid 0 y) = n_step"
    using assms mn mx ft by (simp add: calc_grid_def Let_def d_sub_def n_step_def)
  have rs: "resid (calc_grid 0 y) = 0"
    using assms mn mx ft by (simp add: calc_grid_def Let_def d_sub_def n_step_def)
  have pt: "W1g_point 0 1 0 j = (real j + 1 / 2) / real n_step" if "j < n_step" for j
    using that by (simp add: W1g_point_def Let_def n_step_def field_simps)
  have g: "W1g (calc_grid 0 y) j = Fin ((real j + 1 / 2) / real n_step) \<and>
           W2g (calc_grid 0 y) j = Fin y" if "j < n_step" for j
    using assms mn mx ft that pt [OF that]
    by (simp add: calc_grid_def Let_def d_sub_def n_step_def W2_line_Fin W2_of_def)
  show ?thesis
    using assms mn mx ng g by (simp add: calc_grid_def Let_def)
qed

lemma calc_grid_X_1:
  assumes "0 < y" and "y < 1"
  shows "minW1 (calc_grid 1 y) = Fin y \<and> maxW1 (calc_grid 1 y) = Fin y \<and>
         n_grid (calc_grid 1 y) = 2 \<and>
         W1g (calc_grid 1 y) 0 = Fin y \<and> W1g (calc_grid 1 y) 1 = Fin y \<and>
         W2g (calc_grid 1 y) 0 = NaN \<and> W2g (calc_grid 1 y) 1 = NaN"
  using assms
  by (simp add: calc_grid_def Let_def c_div_def fmax2_Fin fmin2_Fin d_sub_def W2_line_def
        n_step_def)

section \<open>The bounds of a unit\<close>

text \<open>
  C9, as the specification states it, fails for \<^verbatim>\<open>setBounds\<close>: with X = 0.5 and
  Y = 0.49998 the quotient Y/X is 0.99996, above the tolerance 0.9999, and the upper
  bound stored is 1, not min(1, Y/X).
\<close>

theorem setBounds_snaps_upper_bound:
  "caseP_Wbounds (caseP (setBounds (test_param (1 / 2) (49998 / 100000) 0))) ! 0 ! 1
     \<noteq> min 1 ((49998 / 100000) / (1 / 2))"
  by (simp add: setBounds_def test_param_def Let_def)

text \<open>
  C9, amended. For margins 0 < X < 1 and 0 \<le> Y \<le> 1: the grid construction of
  \<^verbatim>\<open>cDPeco\<close> (made for a unit with Y neither 0 nor 1) stores exactly
  [max(0, (X+Y-1)/X), min(1, Y/X)], and that interval is not empty. \<^verbatim>\<open>setBounds\<close>
  stores the same quotients, and for W2 the values the accounting identity gives at
  W1 = 1 and W1 = 0, but replaces a lower bound below 0.0001 by 0 and an upper bound
  above 0.9999 by 1; its W1 interval contains the feasible one, so it is not empty
  either.
\<close>

theorem bounds_feasible:
  assumes "0 < x" and "x < 1" and "0 \<le> y" and "y \<le> 1"
  shows "(y \<noteq> 0 \<and> y \<noteq> 1 \<longrightarrow>
            minW1 (calc_grid x y) = Fin (max 0 ((x + y - 1) / x)) \<and>
            maxW1 (calc_grid x y) = Fin (min 1 (y / x)) \<and>
            \<not> d_less (maxW1 (calc_grid x y)) (minW1 (calc_grid x y))) \<and>
         (let Wb = caseP_Wbounds (caseP (setBounds (p\<lparr>caseP := (caseP p)\<lparr>caseP_X := x, caseP_Y := y\<rparr>\<rparr>)))
          in Wb ! 0 ! 0 = (if (x + y - 1) / x < 1 / 10000 then 0 else (x + y - 1) / x) \<and>
             Wb ! 0 ! 1 = (if 9999 / 10000 < y / x then 1 else y / x) \<and>
             Wb ! 1 ! 0 = (if W2_of x y 1 < 1 / 10000 then 0 else W2_of x y 1) \<and>
             Wb ! 1 ! 1 = (if 9999 / 10000 < W2_of x y 0 then 1 else W2_of x y 0) \<and>
             Wb ! 0 ! 0 \<le> max 0 ((x + y - 1) / x) \<and>
             max 0 ((x + y - 1) / x) \<le> min 1 (y / x) \<and>
             min 1 (y / x) \<le> Wb ! 0 ! 1)"
proof -
  have le: "max 0 ((x + y - 1) / x) \<le> min 1 (y / x)"
    using assms by (simp add: field_simps)
  have g: "y \<noteq> 0 \<and> y \<noteq> 1 \<longrightarrow>
            minW1 (calc_grid x y) = Fin (max 0 ((x + y - 1) / x)) \<and>
            maxW1 (calc_grid x y) = Fin (min 1 (y / x))"
    using assms(1) by (simp add: calc_grid_bounds c_div_Fin fmax2_Fin fmin2_Fin)
  have nl: "y \<noteq> 0 \<and> y \<noteq> 1 \<longrightarrow> \<not> d_less (maxW1 (calc_grid x y)) (minW1 (calc_grid x y))"
    using g le by (simp add: not_less)
  have e1: "(y - (1 - x)) / x = (x + y - 1) / x"
    by (simp add: algebra_simps)
  have w2: "y / (1 - x) - x / (1 - x) = W2_of x y 1" "y / (1 - x) = W2_of x y 0"
    by (simp_all add: W2_of_def diff_divide_distrib)
  have s0: "caseP_Wbounds (caseP (setBounds (p\<lparr>caseP := (caseP p)\<lparr>caseP_X := x, caseP_Y := y\<rparr>\<rparr>))) =
       [[if (y - (1 - x)) / x < 1 / 10000 then 0 else (y - (1 - x)) / x,
         if 9999 / 10000 < y / x then 1 else y / x],
        [if y / (1 - x) - x / (1 - x) < 1 / 10000 then 0 else y / (1 - x) - x / (1 - x),
         if 9999 / 10000 < y / (1 - x) then 1 else y / (1 - x)]]"
    by (simp add: setBounds_def Let_def)
  have s: "caseP_Wbounds (caseP (setBounds (p\<lparr>caseP := (caseP p)\<lparr>caseP_X := x, caseP_Y := y\<rparr>\<rparr>))) =
       [[if (x + y - 1) / x < 1 / 10000 then 0 else (x + y - 1) / x,
         if 9999 / 10000 < y / x then 1 else y / x],
        [if W2_of x y 1 < 1 / 10000 then 0 else W2_of x y 1,
         if 9999 / 10000 < W2_of x y 0 then 1 else W2_of x y 0]]"
    by (simp only: s0 e1 w2(1)) (simp only: w2(2))
  have lo: "(if (x + y - 1) / x < 1 / 10000 then 0 else (x + y - 1) / x) \<le> max 0 ((x + y - 1) / x)"
    by simp
  have hi: "min 1 (y / x) \<le> (if 9999 / 10000 < y / x then 1 else y / x)"
    by simp
  show ?thesis
    using le g nl lo hi unfolding s Let_def by simp
qed

theorem bounds_feasible_witness:
  "minW1 (calc_grid (1 / 2) (1 / 4)) = Fin 0 \<and> maxW1 (calc_grid (1 / 2) (1 / 4)) = Fin (1 / 2) \<and>
   caseP_Wbounds (caseP (setBounds (test_param (1 / 2) (1 / 4) 0))) = [[0, 1 / 2], [0, 1 / 2]]"
  using bounds_feasible [of "1 / 2" "1 / 4" "test_param (1 / 2) (1 / 4) 0"]
  by (simp add: test_param_def setBounds_def Let_def)

section \<open>The integrands and the quadrature call\<close>

text \<open>
  C4, as the specification states it, fails: with the tag 8 the node 1/2 of a unit with
  bounds [0,1] x [0,1] keeps the value density times Jacobian factor, here the square
  root of 32, and a line is printed.
\<close>

theorem SuffExp_unknown_tag_not_zero:
  "SuffExp test_ext [1 / 2] 1 (test_param (1 / 2) (1 / 2) 8) = ([sqrt 32], [ErrorSuff 8]) \<and> sqrt 32 \<noteq> 0"
  by (simp add: SuffExp_def SuffExp_node_def getW1starFromT_def getW2starFromT_def
      getW1starPrimeFromT_def getW2starPrimeFromT_def test_param_def test_ext_def doubleArray_def Let_def)

text \<open>
  C4, amended. With a tag that is none of -1, 0, ..., 7, a node \<open>ii < n\<close> of
  \<^verbatim>\<open>SuffExp\<close> at which the pair is feasible is left with the value of the plain
  density (\<^verbatim>\<open>dBVNtomo\<close> times the Jacobian factor), not with zero, and the line
  \<^verbatim>\<open>Error Suff=\<close> is printed for it; a node at which the pair is infeasible is set to
  zero and prints nothing.
\<close>

theorem SuffExp_unknown_tag:
  assumes tag: "caseP_suff (caseP pp) < - 1 \<or> 7 < caseP_suff (caseP pp)"
    and ii: "ii < n" "ii < length ts"
  shows "let dim = (if setP_ncar (setP pp) = 1 then 3 else 2);
             (W1, im1) = getW1starFromT (ts ! ii) pp 0;
             (W2, im2) = getW2starFromT (ts ! ii) pp 0;
             pfact = sqrt (getW1starPrimeFromT (ts ! ii) pp * getW1starPrimeFromT (ts ! ii) pp
                         + getW2starPrimeFromT (ts ! ii) pp * getW2starPrimeFromT (ts ! ii) pp)
         in if im1 = 1 \<or> im2 = 1
            then fst (SuffExp E ts n pp) ! ii = 0 \<and> snd (SuffExp_node E pp (ts ! ii)) = []
            else fst (SuffExp E ts n pp) ! ii
                   = dBVNtomo E ((doubleArray dim)[0 := W1, 1 := W2]) pp 0 (caseP_normcT (caseP pp)) * pfact
                 \<and> snd (SuffExp_node E pp (ts ! ii)) = [ErrorSuff (caseP_suff (caseP pp))]
                 \<and> ErrorSuff (caseP_suff (caseP pp)) \<in> set (snd (SuffExp E ts n pp))"
proof -
  have nth: "fst (SuffExp E ts n pp) ! ii = fst (SuffExp_node E pp (ts ! ii))"
    using ii by (simp add: SuffExp_def Let_def nth_append)
  have mem: "set (snd (SuffExp_node E pp (ts ! ii))) \<subseteq> set (snd (SuffExp E ts n pp))"
  proof -
    have "ts ! ii \<in> set (take n ts)"
      using ii by (metis in_set_conv_nth length_take min_less_iff_conj nth_take)
    then show ?thesis
      by (auto simp: SuffExp_def Let_def)
  qed
  have im: "snd (getW1starFromT (ts ! ii) pp 0) = 0 \<or> snd (getW1starFromT (ts ! ii) pp 0) = 1"
       "snd (getW2starFromT (ts ! ii) pp 0) = 0 \<or> snd (getW2starFromT (ts ! ii) pp 0) = 1"
    by (simp_all add: getW1starFromT_def getW2starFromT_def Let_def)
  show ?thesis
    using tag im mem unfolding nth
    by (auto simp: SuffExp_node_def Let_def split: prod.splits)
qed

theorem SuffExp_unknown_tag_witness:
  "fst (SuffExp test_ext [1 / 2] 1 (test_param (1 / 2) (1 / 2) 8)) ! 0 = sqrt 32 \<and>
   ErrorSuff 8 \<in> set (snd (SuffExp test_ext [1 / 2] 1 (test_param (1 / 2) (1 / 2) 8)))"
  using SuffExp_unknown_tag [of "test_param (1 / 2) (1 / 2) 8" 0 1 "[1 / 2]" test_ext]
  by (simp add: getW1starFromT_def getW2starFromT_def
      getW1starPrimeFromT_def getW2starPrimeFromT_def test_param_def test_ext_def doubleArray_def Let_def)

text \<open>With the stream closed \<^verbatim>\<open>scanf\<close> always comes back.\<close>

lemma scanf_match_eof: "\<exists>rest. scanf_match fs buf True = Some rest"
  by (induction fs buf True rule: scanf_match.induct) auto

lemma hit_fmt: "hit_enter_fmt = Lit CHR ''H'' # scanf_fmt ''it enter to continue %c''"
  by (simp add: hit_enter_fmt_def isspace_def)

text \<open>
  C3, as the specification states it, fails: with a nonzero status and a standard input
  that is open and has nothing to read, the \<^verbatim>\<open>scanf\<close> call after the diagnostic
  waits, and \<^verbatim>\<open>paramIntegration\<close> does not return.
\<close>

theorem paramIntegration_blocks_on_stdin:
  "paramIntegration failing_ext (SuffExp failing_ext) (test_param (1 / 2) (1 / 2) 0) (test_io [] False) = None"
  by (simp add: paramIntegration_def failing_ext_def test_ext_def test_io_def test_param_def Let_def hit_enter_fmt_def isspace_def)

text \<open>
  C3, amended. \<^verbatim>\<open>paramIntegration\<close> never returns anything but the estimate of the
  quadrature. With status 0 it returns it at once and prints nothing of its own. With a
  nonzero status it prints the diagnostic (status, tag, X, Y, the two W1 bounds,
  estimate, error estimate), then reads standard input with \<^verbatim>\<open>scanf\<close>, and returns
  the estimate once that read is over: at the latest when the stream is closed or its
  next character is not the first of the format.
\<close>

theorem paramIntegration_returns_estimate:
  fixes E :: "'r ext" and f ex s
  defines "q \<equiv> Rdqags E (\<lambda>t n. f t n ex) (1 / 100000) (99999 / 100000) (1 / 1000000000) (1 / 1000000000) 100"
  shows "(q_ier q = 0 \<longrightarrow>
            paramIntegration E f ex s = Some (q_result q, s\<lparr>io_out := io_out s @ q_out q\<rparr>)) \<and>
         (q_ier q \<noteq> 0 \<longrightarrow> io_eof s \<or> (io_stdin s \<noteq> [] \<and> hd (io_stdin s) \<noteq> CHR ''H'') \<longrightarrow>
            (\<exists>rest. paramIntegration E f ex s =
               Some (q_result q,
                     s\<lparr>io_out := io_out s @ q_out q @
                          [IntegrationError (q_ier q) (caseP_suff (caseP ex)) (caseP_X (caseP ex))
                             (caseP_Y (caseP ex)) (caseP_Wbounds (caseP ex) ! 0 ! 0)
                             (caseP_Wbounds (caseP ex) ! 0 ! 1) (q_result q) (q_anserr q)],
                       io_stdin := rest\<rparr>))) \<and>
         (\<forall>r s'. paramIntegration E f ex s = Some (r, s') \<longrightarrow> r = q_result q)"
proof -
  have a: "q_ier q = 0 \<longrightarrow>
            paramIntegration E f ex s = Some (q_result q, s\<lparr>io_out := io_out s @ q_out q\<rparr>)"
    by (simp add: paramIntegration_def q_def Let_def)
  have c: "\<forall>r s'. paramIntegration E f ex s = Some (r, s') \<longrightarrow> r = q_result q"
    by (auto simp: paramIntegration_def q_def Let_def split: if_splits option.splits)
  have m: "io_eof s \<or> (io_stdin s \<noteq> [] \<and> hd (io_stdin s) \<noteq> CHR ''H'') \<Longrightarrow>
           \<exists>rest. scanf_match hit_enter_fmt (io_stdin s) (io_eof s) = Some rest"
  proof (cases "io_eof s")
    case True
    then show ?thesis using scanf_match_eof by simp
  next
    case False
    assume "io_eof s \<or> (io_stdin s \<noteq> [] \<and> hd (io_stdin s) \<noteq> CHR ''H'')"
    with False obtain b bs where "io_stdin s = b # bs" "b \<noteq> CHR ''H''"
      by (cases "io_stdin s") auto
    then show ?thesis unfolding hit_fmt by simp
  qed
  have b: "q_ier q \<noteq> 0 \<longrightarrow> io_eof s \<or> (io_stdin s \<noteq> [] \<and> hd (io_stdin s) \<noteq> CHR ''H'') \<longrightarrow>
            (\<exists>rest. paramIntegration E f ex s =
               Some (q_result q,
                     s\<lparr>io_out := io_out s @ q_out q @
                          [IntegrationError (q_ier q) (caseP_suff (caseP ex)) (caseP_X (caseP ex))
                             (caseP_Y (caseP ex)) (caseP_Wbounds (caseP ex) ! 0 ! 0)
                             (caseP_Wbounds (caseP ex) ! 0 ! 1) (q_result q) (q_anserr q)],
                       io_stdin := rest\<rparr>))"
  proof (intro impI)
    assume ier: "q_ier q \<noteq> 0" and inp: "io_eof s \<or> (io_stdin s \<noteq> [] \<and> hd (io_stdin s) \<noteq> CHR ''H'')"
    from m [OF inp] obtain rest where
      "scanf_match hit_enter_fmt (io_stdin s) (io_eof s) = Some rest" ..
    with ier show "\<exists>rest. paramIntegration E f ex s =
               Some (q_result q,
                     s\<lparr>io_out := io_out s @ q_out q @
                          [IntegrationError (q_ier q) (caseP_suff (caseP ex)) (caseP_X (caseP ex))
                             (caseP_Y (caseP ex)) (caseP_Wbounds (caseP ex) ! 0 ! 0)
                             (caseP_Wbounds (caseP ex) ! 0 ! 1) (q_result q) (q_anserr q)],
                       io_stdin := rest\<rparr>)"
      unfolding paramIntegration_def q_def Let_def by (intro exI [of _ rest]) simp
  qed
  from a b c show ?thesis by blast
qed



theorem paramIntegration_returns_estimate_witness:
  "paramIntegration test_ext (SuffExp test_ext) (test_param (1 / 2) (1 / 2) 0) (test_io [] False)
     = Some (1, test_io [] False) \<and>
   (\<exists>rest. paramIntegration failing_ext (SuffExp failing_ext) (test_param (1 / 2) (1 / 2) 0) (test_io [CHR 0x0A] False)
     = Some (3, \<lparr>io_out = [IntegrationError 1 0 (1 / 2) (1 / 2) 0 1 3 1], io_stdin = rest, io_eof = False\<rparr>))"
proof -
  have q1: "Rdqags test_ext = (\<lambda>f lb ub ea er lim.
         \<lparr>q_result = 1, q_anserr = 0, q_neval = 21, q_ier = 0, q_last = 1, q_out = []\<rparr>)"
    by (simp add: test_ext_def)
  have q2: "Rdqags failing_ext = (\<lambda>f lb ub ea er lim.
         \<lparr>q_result = 3, q_anserr = 1, q_neval = 2079, q_ier = 1, q_last = 100, q_out = []\<rparr>)"
    by (simp add: failing_ext_def)
  show ?thesis
    using paramIntegration_returns_estimate [of test_ext "SuffExp test_ext" "test_param (1 / 2) (1 / 2) 0" "test_io [] False"]
      paramIntegration_returns_estimate [of failing_ext "SuffExp failing_ext" "test_param (1 / 2) (1 / 2) 0" "test_io [CHR 0x0A] False"]
    unfolding q1 q2
    by (simp add: test_io_def test_param_def)
qed


section \<open>The update of the X = 0 areas\<close>

text \<open>
  C6 at one unit of each kind (unit 0 sampled, unit 1 of the X = 1 areas, unit 2 of the
  X = 0 areas): the update of the X = 0 area 0 overwrites \<^verbatim>\<open>Wstar[1][0]\<close>, the known
  value of the X = 1 area, leaves its own \<^verbatim>\<open>Wstar[2][0]\<close> as it was, and computes
  \<^verbatim>\<open>W[2][0]\<close> from that old value.
\<close>

theorem update_x0_writes_x1_slot:
  "Wstar test_state 1 = [0, 0] \<and>
   Wstar (update_x0_unit test_ext test_inputs 0 test_state) 1 = [1, 0] \<and>
   Wstar (update_x0_unit test_ext test_inputs 0 test_state) 2 = Wstar test_state 2 \<and>
   W (update_x0_unit test_ext test_inputs 0 test_state) 2 ! 0 = 1 / 2"
  by (simp add: update_x0_unit_def test_ext_def test_inputs_def test_state_def Let_def)

section \<open>The two selection loops\<close>

lemma grid_pick_le: "grid_pick u cum ng j \<le> max j (ng - 1)"
proof (induction u cum ng j rule: grid_pick.induct)
  case (1 u cum ng j)
  show ?case
  proof (cases "c_gt u (cum ! j) \<and> j < ng - 1")
    case True
    with "1.IH" [OF True] grid_pick.simps [of u cum ng j] show ?thesis by auto
  next
    case False
    with grid_pick.simps [of u cum ng j] show ?thesis by auto
  qed
qed

text \<open>
  The walk over the grid when the uniform draw is above every cumulative weight: the
  second test of the loop stops it at the last grid point.
\<close>

lemma grid_pick_last:
  assumes "\<forall>k < ng. c_gt u (cum ! k)" and "j \<le> ng - 1"
  shows "grid_pick u cum ng j = ng - 1"
  using assms
proof (induction u cum ng j rule: grid_pick.induct)
  case (1 u cum ng j)
  show ?case
  proof (cases "c_gt u (cum ! j) \<and> j < ng - 1")
    case True
    then have "Suc j \<le> ng - 1" by simp
    with "1.IH" [OF True "1.prems"(1)] True grid_pick.simps [of u cum ng j]
    show ?thesis by simp
  next
    case False
    have "\<not> j < ng - 1"
    proof
      assume l: "j < ng - 1"
      then have "j < ng" by simp
      with "1.prems"(1) have "c_gt u (cum ! j)" by simp
      with l False show False by simp
    qed
    with "1.prems"(2) have "j = ng - 1" by simp
    with False grid_pick.simps [of u cum ng j] show ?thesis by simp
  qed
qed

lemma grid_pick_lt:
  assumes "0 < ng"
  shows "grid_pick u cum ng 0 < ng"
proof -
  have "grid_pick u cum ng 0 \<le> max 0 (ng - 1)" by (rule grid_pick_le)
  with assms show ?thesis by simp
qed

lemma length_cumsum: "length (cumsum acc ws) = length ws"
  by (induction ws arbitrary: acc) auto

lemma last_cumsum: "ws \<noteq> [] \<Longrightarrow> last (cumsum acc ws) = acc + sum_list ws"
proof (induction ws arbitrary: acc)
  case Nil
  then show ?case by simp
next
  case (Cons w ws)
  then show ?case by (cases ws) (auto simp: algebra_simps)
qed

lemma nth_cumsum: "k < length ws \<Longrightarrow> cumsum acc ws ! k = acc + sum_list (take (Suc k) ws)"
proof (induction ws arbitrary: acc k)
  case Nil
  then show ?case by simp
next
  case (Cons w ws)
  then show ?case by (cases k) (auto simp: algebra_simps)
qed

lemma cumsum_Nil_iff: "cumsum acc ws = [] \<longleftrightarrow> ws = []"
  by (cases ws) auto

lemma length_normalize_cum: "length (normalize_cum ws) = length ws"
  by (simp add: normalize_cum_def Let_def length_cumsum)

lemma nth_normalize_cum:
  "k < length ws \<Longrightarrow> normalize_cum ws ! k = c_div (sum_list (take (Suc k) ws)) (sum_list ws)"
proof -
  assume k: "k < length ws"
  then have ne: "ws \<noteq> []" by auto
  then have "last (0 # cumsum 0 ws) = sum_list ws"
    using last_cumsum [of ws 0] by (simp add: cumsum_Nil_iff)
  with k show ?thesis
    by (simp add: normalize_cum_def Let_def length_cumsum nth_cumsum)
qed

lemma c_gt_total: "u < 1 \<Longrightarrow> \<not> c_gt u (c_div T T)"
  by (simp add: c_div_def)

lemma polya_pick_Some:
  "polya_pick u qq j = Some j' \<Longrightarrow>
     j \<le> j' \<and> j' < length qq \<and> \<not> c_gt u (qq ! j') \<and> (\<forall>k. j \<le> k \<and> k < j' \<longrightarrow> c_gt u (qq ! k))"
proof (induction u qq j rule: polya_pick.induct)
  case (1 u qq j)
  show ?case
  proof (cases "length qq \<le> j")
    case True
    with "1.prems" polya_pick.simps [of u qq j] show ?thesis by simp
  next
    case False
    show ?thesis
    proof (cases "c_gt u (qq ! j)")
      case True
      with False "1.prems" polya_pick.simps [of u qq j]
      have "polya_pick u qq (Suc j) = Some j'" by simp
      from "1.IH" [OF False True this] True show ?thesis
        by (auto simp: less_Suc_eq_le dest: le_neq_implies_less)
    next
      case c: False
      with False "1.prems" polya_pick.simps [of u qq j] show ?thesis by auto
    qed
  qed
qed

lemma polya_pick_total:
  "k < length qq \<Longrightarrow> \<not> c_gt u (qq ! k) \<Longrightarrow> j \<le> k \<Longrightarrow> \<exists>j'. polya_pick u qq j = Some j' \<and> j' \<le> k"
proof (induction u qq j rule: polya_pick.induct)
  case (1 u qq j)
  show ?case
  proof (cases "c_gt u (qq ! j)")
    case True
    with "1.prems" have "j \<noteq> k" by auto
    with "1.prems" have jk: "Suc j \<le> k" and nl: "\<not> length qq \<le> j" by auto
    from "1.IH" [OF nl True "1.prems"(1,2) jk] True nl polya_pick.simps [of u qq j]
    show ?thesis by simp
  next
    case False
    with "1.prems" polya_pick.simps [of u qq j] show ?thesis by auto
  qed
qed

lemma polya_pick_normalized:
  assumes "u < 1" and "ws \<noteq> []"
  shows "\<exists>j < length ws. polya_pick u (normalize_cum ws) 0 = Some j"
proof -
  let ?k = "length ws - 1"
  have k: "?k < length (normalize_cum ws)" using assms by (simp add: length_normalize_cum)
  have "normalize_cum ws ! ?k = c_div (sum_list ws) (sum_list ws)"
    using assms by (simp add: nth_normalize_cum)
  then have "\<not> c_gt u (normalize_cum ws ! ?k)" using assms c_gt_total by simp
  from polya_pick_total [OF k this, of 0] obtain j where
    "polya_pick u (normalize_cum ws) 0 = Some j" "j \<le> ?k" by auto
  with assms show ?thesis by (intro exI [of _ j]) (cases ws, auto)
qed


lemma draw_W_unit_grid_point:
  assumes "Xd a k 1 \<noteq> 0" and "Xd a k 1 \<noteq> 1"
  shows "\<exists>j < n_grid (calc_grid (Xd a k 0) (Xd a k 1)).
           W (draw_W_unit E a k st) k =
             [fin (W1g (calc_grid (Xd a k 0) (Xd a k 1)) j),
              fin (W2g (calc_grid (Xd a k 0) (Xd a k 1)) j)]"
proof -
  let ?g = "calc_grid (Xd a k 0) (Xd a k 1)"
  have b: "0 < n_grid ?g" using n_grid_bounds [OF assms, of "Xd a k 0"] by simp
  have "\<And>u cum. grid_pick u cum (n_grid ?g) 0 < n_grid ?g"
    by (rule grid_pick_lt [OF b])
  then show ?thesis
    by (auto simp: draw_W_unit_def Let_def split: prod.splits)
qed

lemma draw_W_unit_finite_point:
  assumes "Xd a k 1 \<noteq> 0" and "Xd a k 1 \<noteq> 1" and "Xd a k 0 \<noteq> 1"
    and "Xd a k 0 = 0 \<longrightarrow> 0 < Xd a k 1 \<and> Xd a k 1 < 1"
  shows "\<exists>j < n_grid (calc_grid (Xd a k 0) (Xd a k 1)).
           map Fin (W (draw_W_unit E a k st) k) =
             [W1g (calc_grid (Xd a k 0) (Xd a k 1)) j, W2g (calc_grid (Xd a k 0) (Xd a k 1)) j]"
proof -
  let ?g = "calc_grid (Xd a k 0) (Xd a k 1)"
  from draw_W_unit_grid_point [OF assms(1,2), of E st] obtain j where
    j: "j < n_grid ?g" "W (draw_W_unit E a k st) k = [fin (W1g ?g j), fin (W2g ?g j)]"
    by blast
  from grid_finite [OF assms j(1)] obtain w1 where
    "W1g ?g j = Fin w1" "W2g ?g j = Fin (W2_of (Xd a k 0) (Xd a k 1) w1)" by blast
  with j show ?thesis by (intro exI [of _ j]) simp
qed

lemma new_table_label:
  "C (new_table E a i st) i = nstar st \<and> nstar (new_table E a i st) = nstar st + 1"
  by (simp add: new_table_def Let_def split: prod.splits)

lemma join_table_label:
  "C (join_table i j st) i = C st j \<and> nstar (join_table i j st) = nstar st \<and>
   mu (join_table i j st) i = copy_vec (mu st j) \<and>
   Sigma (join_table i j st) i = copy_mat (Sigma st j) \<and>
   InvSigma (join_table i j st) i = copy_mat (InvSigma st j)"
  by (simp add: join_table_def)

lemma sweep_unit_pick:
  assumes "polya_pick (fst (unif_rand E (rng st))) (normalize_cum (q_weights E a st i)) 0 = Some j"
  shows "\<exists>st'. sweep_unit E a i st = Some st' \<and>
           (if j = i then C st' i = nstar st \<and> nstar st' = nstar st + 1
            else C st' i = C st j \<and> nstar st' = nstar st \<and> mu st' i = copy_vec (mu st j) \<and>
                 Sigma st' i = copy_mat (Sigma st j) \<and> InvSigma st' i = copy_mat (InvSigma st j))"
proof -
  obtain u r1 where ur: "unif_rand E (rng st) = (u, r1)" by (cases "unif_rand E (rng st)")
  let ?st1 = "st\<lparr>rng := r1\<rparr>"
  let ?st2 = "if j = i then new_table E a i ?st1 else join_table i j ?st1"
  have sw: "sweep_unit E a i st = Some (?st2\<lparr>sortC := (sortC ?st2)(i := C ?st2 i)\<rparr>)"
    using assms ur by (simp add: sweep_unit_def Let_def)
  show ?thesis
  proof (cases "j = i")
    case True
    with sw new_table_label [of E a i ?st1] show ?thesis by simp
  next
    case False
    with sw join_table_label [of i j ?st1] show ?thesis by simp
  qed
qed

lemma length_q_weights: "length (q_weights E a st i) = t_samp a"
  by (simp add: q_weights_def)

text \<open>
  C10. Grid draw: for every unit that is sampled (Y neither 0 nor 1), whatever its
  margin X is, \<^verbatim>\<open>n_grid[i]\<close> is between 2 and \<^verbatim>\<open>n_step\<close>, and the selection loop ends at
  an index below \<^verbatim>\<open>n_grid[i]\<close> for every uniform draw \<open>u\<close> and every array \<open>cum\<close> of
  normalised cumulative weights, finite or not; when \<open>u\<close> exceeds every one of them the
  loop ends at the last grid point, stopped by its second test. The pair written is
  that of a grid point below \<^verbatim>\<open>n_grid[i]\<close>, for every state \<open>s\<close> and so for every uniform
  draw (stated where the grid points are finite numbers).
  Urn draw, with weights that are finite numbers: the last normalised cumulative weight
  is exactly 1 when the total weight is not zero, and the NaN of 0/0 when it is; with a
  uniform draw below 1 the walk over \<open>qq\<close>, which has no test of the index, ends at an
  index below \<^verbatim>\<open>t_samp\<close>, and the step of the sweep has a result.
\<close>

theorem selection_loops_in_bounds:
  "(Xd a k 1 \<noteq> 0 \<and> Xd a k 1 \<noteq> 1 \<longrightarrow>
      (let g = calc_grid (Xd a k 0) (Xd a k 1)
       in 2 \<le> n_grid g \<and> n_grid g \<le> n_step \<and>
          grid_pick u cum (n_grid g) 0 < n_grid g \<and>
          ((\<forall>j < n_grid g. c_gt u (cum ! j)) \<longrightarrow> grid_pick u cum (n_grid g) 0 = n_grid g - 1) \<and>
          (Xd a k 0 \<noteq> 1 \<and> (Xd a k 0 = 0 \<longrightarrow> 0 < Xd a k 1 \<and> Xd a k 1 < 1) \<longrightarrow>
             (\<exists>j < n_grid g. map Fin (W (draw_W_unit E a k s) k) = [W1g g j, W2g g j])))) \<and>
   (i < t_samp a \<longrightarrow>
      last (normalize_cum (q_weights E a st i)) =
        (if sum_list (q_weights E a st i) = 0 then NaN else Fin 1)) \<and>
   (i < t_samp a \<and> fst (unif_rand E (rng st)) < 1 \<longrightarrow>
      (\<exists>j < t_samp a.
         polya_pick (fst (unif_rand E (rng st))) (normalize_cum (q_weights E a st i)) 0 = Some j) \<and>
      sweep_unit E a i st \<noteq> None)"
proof -
  let ?g = "calc_grid (Xd a k 0) (Xd a k 1)"
  let ?ws = "q_weights E a st i"
  have grid: "2 \<le> n_grid ?g \<and> n_grid ?g \<le> n_step \<and>
          grid_pick u cum (n_grid ?g) 0 < n_grid ?g \<and>
          ((\<forall>j < n_grid ?g. c_gt u (cum ! j)) \<longrightarrow> grid_pick u cum (n_grid ?g) 0 = n_grid ?g - 1) \<and>
          (Xd a k 0 \<noteq> 1 \<and> (Xd a k 0 = 0 \<longrightarrow> 0 < Xd a k 1 \<and> Xd a k 1 < 1) \<longrightarrow>
             (\<exists>j < n_grid ?g. map Fin (W (draw_W_unit E a k s) k) = [W1g ?g j, W2g ?g j]))"
    if y: "Xd a k 1 \<noteq> 0" "Xd a k 1 \<noteq> 1"
  proof -
    have b: "2 \<le> n_grid ?g" "n_grid ?g \<le> n_step"
      using n_grid_bounds [OF y, of "Xd a k 0"] by simp_all
    from b(1) have pos: "0 < n_grid ?g" by simp
    have lt: "grid_pick u cum (n_grid ?g) 0 < n_grid ?g"
      by (rule grid_pick_lt [OF pos])
    have lst: "(\<forall>j < n_grid ?g. c_gt u (cum ! j)) \<longrightarrow> grid_pick u cum (n_grid ?g) 0 = n_grid ?g - 1"
      using grid_pick_last [of "n_grid ?g" u cum 0] by simp
    have pt: "Xd a k 0 \<noteq> 1 \<and> (Xd a k 0 = 0 \<longrightarrow> 0 < Xd a k 1 \<and> Xd a k 1 < 1) \<longrightarrow>
             (\<exists>j < n_grid ?g. map Fin (W (draw_W_unit E a k s) k) = [W1g ?g j, W2g ?g j])"
      using draw_W_unit_finite_point [OF y, of E s] by blast
    from b lt lst pt show ?thesis by blast
  qed
  have lastw: "last (normalize_cum ?ws) = (if sum_list ?ws = 0 then NaN else Fin 1)"
    if i: "i < t_samp a"
  proof -
    have ne: "?ws \<noteq> []" using i length_q_weights [of E a st i] by auto
    have nne: "normalize_cum ?ws \<noteq> []"
      using ne length_normalize_cum [of ?ws] by (metis length_0_conv)
    have "last (normalize_cum ?ws) = normalize_cum ?ws ! (length ?ws - 1)"
      using last_conv_nth [OF nne] by (simp only: length_normalize_cum)
    also have "\<dots> = c_div (sum_list ?ws) (sum_list ?ws)"
      using ne by (simp add: nth_normalize_cum)
    finally show ?thesis by (simp add: c_div_def)
  qed
  have urn: "(\<exists>j < t_samp a.
         polya_pick (fst (unif_rand E (rng st))) (normalize_cum ?ws) 0 = Some j) \<and>
      sweep_unit E a i st \<noteq> None"
    if i: "i < t_samp a" and u1: "fst (unif_rand E (rng st)) < 1"
  proof -
    have ne: "?ws \<noteq> []" using i length_q_weights [of E a st i] by auto
    from polya_pick_normalized [OF u1 ne] obtain j where
      j: "j < t_samp a" "polya_pick (fst (unif_rand E (rng st))) (normalize_cum ?ws) 0 = Some j"
      by (auto simp: length_q_weights)
    from sweep_unit_pick [OF j(2)] have "sweep_unit E a i st \<noteq> None" by auto
    with j show ?thesis by blast
  qed
  show ?thesis
    unfolding Let_def using grid lastw urn by blast
qed

text \<open>
  The theorem at the unit with X = 0 and Y = 1/2, whose grid has 1000 points, with the
  uniform draw 1/2 above cumulative weights that are all 1/4: the loop ends at the index
  999. The urn part at the first unit of the test state.
\<close>

theorem selection_loops_in_bounds_witness:
  "Xd zero_X_inputs 0 1 \<noteq> 0 \<and> Xd zero_X_inputs 0 1 \<noteq> 1 \<and> Xd zero_X_inputs 0 0 = 0 \<and>
   n_grid (calc_grid (Xd zero_X_inputs 0 0) (Xd zero_X_inputs 0 1)) = 1000 \<and>
   grid_pick (1 / 2) (replicate 1000 (Fin (1 / 4))) 1000 0 = 999 \<and>
   (0::nat) < t_samp zero_X_inputs \<and> fst (unif_rand test_ext (rng test_state)) < 1 \<and>
   sweep_unit test_ext zero_X_inputs 0 test_state \<noteq> None"
proof -
  have x: "Xd zero_X_inputs 0 0 = 0" and y: "Xd zero_X_inputs 0 1 = 1 / 2"
    by (simp_all add: zero_X_inputs_def test_inputs_def Xd_def)
  have g: "Xd zero_X_inputs 0 1 \<noteq> 0" "Xd zero_X_inputs 0 1 \<noteq> 1"
    by (simp_all add: zero_X_inputs_def test_inputs_def Xd_def)
  have "n_grid (calc_grid 0 (1 / 2)) = 1000"
    using calc_grid_X_0 [of "1 / 2"] by (simp add: n_step_def)
  then have ng: "n_grid (calc_grid (Xd zero_X_inputs 0 0) (Xd zero_X_inputs 0 1)) = 1000"
    by (simp only: x y)
  have gt: "\<forall>j < 1000. c_gt (1 / 2) (replicate 1000 (Fin (1 / 4)) ! j)"
    by simp
  have t: "(0::nat) < t_samp zero_X_inputs"
    by (simp add: zero_X_inputs_def test_inputs_def t_samp_def)
  have u: "fst (unif_rand test_ext (rng test_state)) < 1"
    by (simp add: test_ext_def)
  from selection_loops_in_bounds
         [of zero_X_inputs 0 "1 / 2" "replicate 1000 (Fin (1 / 4))" test_ext test_state 0 test_state]
       x g ng gt t u
  show ?thesis by (simp add: Let_def)
qed

section \<open>The weights of the urn\<close>

text \<open>
  C2, as the specification states it, fails in one point: the weight of a new table is
  not the last entry of the cumulative order, it stands at the unit's own index. For
  unit 0 of three units, with every normal density 2 and the Student density 3, the
  weights are [3, 2, 2]; the uniform draw 0.3 stops at index 0, which is the new table
  (the unit gets the fresh label 3), where an order with the new table last would have
  stopped at an existing unit.
\<close>

theorem new_table_weight_not_last:
  "q_weights urn_ext test_inputs test_state 0 = [3, 2, 2] \<and>
   alpha test_state * dMVT urn_ext (Wstar test_state 0) (mu0 test_inputs) (S_bvt urn_ext test_inputs)
       (pinu0 test_inputs - 1) 2 0 = 3 \<and>
   q_weights urn_ext test_inputs test_state 0 ! (t_samp test_inputs - 1) = 2 \<and>
   polya_pick (fst (unif_rand urn_ext (rng test_state)))
       (normalize_cum (q_weights urn_ext test_inputs test_state 0)) 0 = Some 0 \<and>
   map_option (\<lambda>s. (C s 0, nstar s)) (sweep_unit urn_ext test_inputs 0 test_state) = Some (3, 4)"
proof -
  have q: "q_weights urn_ext test_inputs test_state 0 = [3, 2, 2]"
    by (simp add: q_weights_def urn_ext_def test_ext_def test_inputs_def test_state_def t_samp_def
        upt_rec [of 0] upt_rec [of 1] upt_rec [of 2])
  have n: "normalize_cum [3, 2, 2] = [Fin (3 / 7), Fin (5 / 7), Fin 1]"
    by (simp add: normalize_cum_def c_div_def)
  have u: "fst (unif_rand urn_ext (rng test_state)) = 3 / 10"
    by (simp add: urn_ext_def)
  have p: "polya_pick (3 / 10) [Fin (3 / 7), Fin (5 / 7), Fin 1] 0 = Some 0"
    by (simp add: polya_pick.simps)
  have t: "alpha test_state * dMVT urn_ext (Wstar test_state 0) (mu0 test_inputs) (S_bvt urn_ext test_inputs)
       (pinu0 test_inputs - 1) 2 0 = 3"
    by (simp add: urn_ext_def test_state_def)
  have pk: "polya_pick (fst (unif_rand urn_ext (rng test_state)))
       (normalize_cum (q_weights urn_ext test_inputs test_state 0)) 0 = Some 0"
    by (simp only: q n u p)
  from sweep_unit_pick [OF pk] have
    "map_option (\<lambda>s. (C s 0, nstar s)) (sweep_unit urn_ext test_inputs 0 test_state) = Some (3, 4)"
    by (auto simp: test_state_def)
  with q t pk show ?thesis
    by (simp add: test_inputs_def t_samp_def)
qed

text \<open>
  C2, amended. For a unit \<open>i\<close> of the sweep, the weight at index \<open>k \<noteq> i\<close> is the
  normal density of \<open>Wstar i\<close> under the parameters of unit \<open>k\<close>, the weight at
  index \<open>i\<close> itself is \<open>alpha\<close> times the Student density with \<open>nu0 - 1\<close> degrees of
  freedom and the scale matrix \<^verbatim>\<open>S_bvt\<close> (the inverse of tau0 (nu0 - 1) S0 / (1 + tau0)).
  The normalised cumulative weight at \<open>k\<close> is the sum of the first \<open>k + 1\<close> weights
  over the total, and the index drawn is the first one whose normalised cumulative
  weight is not below the uniform draw. Drawing \<open>i\<close> itself opens a new table with
  the next fresh label; any other index copies the label and parameters of that unit.
\<close>

theorem polya_weights_and_draw:
  assumes i: "i < t_samp a"
    and pick: "polya_pick (fst (unif_rand E (rng st))) (normalize_cum (q_weights E a st i)) 0 = Some j"
  shows "length (q_weights E a st i) = t_samp a \<and>
         (\<forall>k < t_samp a. q_weights E a st i ! k =
            (if k = i then alpha st * dMVT E (Wstar st i) (mu0 a) (S_bvt E a) (pinu0 a - 1) 2 0
             else dMVN E (Wstar st i) (mu st k) (InvSigma st k) 2 0)) \<and>
         S_bvt E a = dinv E (mat_of (\<lambda>j k. pdtau0 a * of_int (pinu0 a - 1) * (S0 a ! j ! k) / (1 + pdtau0 a))) n_cov \<and>
         (\<forall>k < t_samp a. normalize_cum (q_weights E a st i) ! k =
            c_div (sum_list (take (Suc k) (q_weights E a st i))) (sum_list (q_weights E a st i))) \<and>
         j < t_samp a \<and>
         \<not> c_gt (fst (unif_rand E (rng st))) (normalize_cum (q_weights E a st i) ! j) \<and>
         (\<forall>k < j. c_gt (fst (unif_rand E (rng st))) (normalize_cum (q_weights E a st i) ! k)) \<and>
         (\<exists>st'. sweep_unit E a i st = Some st' \<and>
            (if j = i then C st' i = nstar st \<and> nstar st' = nstar st + 1
             else C st' i = C st j \<and> nstar st' = nstar st \<and> mu st' i = copy_vec (mu st j) \<and>
                  Sigma st' i = copy_mat (Sigma st j) \<and> InvSigma st' i = copy_mat (InvSigma st j)))"
proof -
  let ?ws = "q_weights E a st i"
  have len: "length ?ws = t_samp a" by (rule length_q_weights)
  have w: "\<forall>k < t_samp a. ?ws ! k =
            (if k = i then alpha st * dMVT E (Wstar st i) (mu0 a) (S_bvt E a) (pinu0 a - 1) 2 0
             else dMVN E (Wstar st i) (mu st k) (InvSigma st k) 2 0)"
    by (simp add: q_weights_def)
  have b: "S_bvt E a = dinv E (mat_of (\<lambda>j k. pdtau0 a * of_int (pinu0 a - 1) * (S0 a ! j ! k) / (1 + pdtau0 a))) n_cov"
    by (simp add: S_bvt_def)
  have n: "\<forall>k < t_samp a. normalize_cum ?ws ! k = c_div (sum_list (take (Suc k) ?ws)) (sum_list ?ws)"
    using nth_normalize_cum [of _ ?ws] by (simp add: len)
  from polya_pick_Some [OF pick] have
    p: "j < t_samp a" "\<not> c_gt (fst (unif_rand E (rng st))) (normalize_cum ?ws ! j)"
       "\<forall>k < j. c_gt (fst (unif_rand E (rng st))) (normalize_cum ?ws ! k)"
    by (simp_all add: length_normalize_cum len)
  from len w b n p sweep_unit_pick [OF pick] show ?thesis
    by blast
qed

theorem polya_weights_and_draw_witness:
  "(0::nat) < t_samp test_inputs \<and>
   polya_pick (fst (unif_rand urn_ext (rng test_state)))
       (normalize_cum (q_weights urn_ext test_inputs test_state 0)) 0 = Some 0 \<and>
   length (q_weights urn_ext test_inputs test_state 0) = t_samp test_inputs \<and>
   (\<exists>st'. sweep_unit urn_ext test_inputs 0 test_state = Some st' \<and> C st' 0 = nstar test_state)"
proof -
  have t: "(0::nat) < t_samp test_inputs"
    by (simp add: test_inputs_def t_samp_def)
  have q: "q_weights urn_ext test_inputs test_state 0 = [3, 2, 2]"
    by (simp add: q_weights_def urn_ext_def test_ext_def test_inputs_def test_state_def t_samp_def
        upt_rec [of 0] upt_rec [of 1] upt_rec [of 2])
  have n: "normalize_cum [3, 2, 2] = [Fin (3 / 7), Fin (5 / 7), Fin 1]"
    by (simp add: normalize_cum_def c_div_def)
  have u: "fst (unif_rand urn_ext (rng test_state)) = 3 / 10"
    by (simp add: urn_ext_def)
  have p: "polya_pick (3 / 10) [Fin (3 / 7), Fin (5 / 7), Fin 1] 0 = Some 0"
    by (simp add: polya_pick.simps)
  have pk: "polya_pick (fst (unif_rand urn_ext (rng test_state)))
       (normalize_cum (q_weights urn_ext test_inputs test_state 0)) 0 = Some 0"
    by (simp only: q n u p)
  from polya_weights_and_draw [OF t pk] t pk show ?thesis
    by auto
qed

section \<open>What the steps of a round leave alone\<close>

lemma fold_preserves:
  assumes "\<And>x s. g (f x s) = g s"
  shows "g (fold f xs s) = g s"
  using assms by (induction xs arbitrary: s) auto

lemma fold_preserves_if:
  assumes "\<And>x s. g (f x s) = g s"
  shows "g (if c then fold f xs s else s) = g s"
  using fold_preserves [of g f, OF assms] by simp

lemma opt_fold_preserves:
  assumes "\<And>x s s'. f x s = Some s' \<Longrightarrow> g s' = g s"
    and "opt_fold f xs s = Some s'"
  shows "g s' = g s"
  using assms(2)
proof (induction xs arbitrary: s)
  case Nil
  then show ?case by simp
next
  case (Cons x xs)
  then obtain s1 where s1: "f x s = Some s1" "opt_fold f xs s1 = Some s'"
    by (auto split: option.splits)
  from Cons.IH [OF s1(2)] assms(1) [OF s1(1)] show ?case by simp
qed

lemma opt_fold_total:
  assumes "\<And>x s. x \<in> set xs \<Longrightarrow> f x s \<noteq> None"
  shows "\<exists>s'. opt_fold f xs s = Some s'"
  using assms
proof (induction xs arbitrary: s)
  case Nil
  then show ?case by simp
next
  case (Cons x xs)
  from Cons.prems [of x s] obtain s1 where s1: "f x s = Some s1" by auto
  from Cons.IH [of s1] Cons.prems obtain s' where "opt_fold f xs s1 = Some s'" by auto
  with s1 show ?case by simp
qed

lemma sample_W_unit_frame:
  "alpha (sample_W_unit E a k st) = alpha st \<and> out (sample_W_unit E a k st) = out st \<and>
   itempA (sample_W_unit E a k st) = itempA st \<and>
   (k \<noteq> i \<or> Xd a i 1 = 0 \<or> Xd a i 1 = 1 \<longrightarrow> W (sample_W_unit E a k st) i = W st i)"
  by (auto simp: sample_W_unit_def draw_W_unit_def Let_def split: prod.splits)

lemma update_x1_unit_frame:
  "alpha (update_x1_unit E a k st) = alpha st \<and> out (update_x1_unit E a k st) = out st \<and>
   itempA (update_x1_unit E a k st) = itempA st \<and>
   (i < pin_samp a \<longrightarrow> W (update_x1_unit E a k st) i = W st i)"
  by (auto simp: update_x1_unit_def Let_def split: prod.splits)

lemma update_x0_unit_frame:
  "alpha (update_x0_unit E a k st) = alpha st \<and> out (update_x0_unit E a k st) = out st \<and>
   itempA (update_x0_unit E a k st) = itempA st \<and>
   (i < pin_samp a \<longrightarrow> W (update_x0_unit E a k st) i = W st i)"
  by (auto simp: update_x0_unit_def Let_def split: prod.splits)

lemma new_table_frame:
  "alpha (new_table E a i st) = alpha st \<and> out (new_table E a i st) = out st \<and>
   itempA (new_table E a i st) = itempA st \<and> W (new_table E a i st) = W st"
  by (simp add: new_table_def Let_def split: prod.splits)

lemma sweep_unit_frame:
  assumes "sweep_unit E a k st = Some st'"
  shows "alpha st' = alpha st \<and> out st' = out st \<and> itempA st' = itempA st \<and> W st' = W st"
proof -
  obtain u r1 where ur: "unif_rand E (rng st) = (u, r1)" by (cases "unif_rand E (rng st)")
  from assms ur obtain j where
    st': "st' = (let st2 = (if j = k then new_table E a k (st\<lparr>rng := r1\<rparr>) else join_table k j (st\<lparr>rng := r1\<rparr>))
                in st2\<lparr>sortC := (sortC st2)(k := C st2 k)\<rparr>)"
    by (auto simp: sweep_unit_def Let_def split: option.splits)
  show ?thesis
    unfolding st' using new_table_frame [of E a k "st\<lparr>rng := r1\<rparr>"]
    by (simp add: Let_def join_table_def)
qed

lemma assign_mix_frame:
  "alpha (assign_mix th l st) = alpha st \<and> out (assign_mix th l st) = out st \<and>
   itempA (assign_mix th l st) = itempA st \<and> W (assign_mix th l st) = W st"
  by (simp add: assign_mix_def)

lemma remix_block_frame:
  "remix_block E a srt idx i st = (i', th, st') \<Longrightarrow>
   alpha st' = alpha st \<and> out st' = out st \<and> itempA st' = itempA st \<and> W st' = W st"
proof -
  assume rb: "remix_block E a srt idx i st = (i', th, st')"
  obtain j label Wm Wsum where g: "gather (t_samp a) srt idx (Wstar st) (srt ! i) i [] [] (vec_of (\<lambda>k. 0)) = (j, label, Wm, Wsum)"
    by (metis prod_cases4)
  obtain th1 r1 where d: "draw_mix E a Wm Wsum (rng st) = (th1, r1)"
    by (cases "draw_mix E a Wm Wsum (rng st)")
  let ?g = "\<lambda>s. (alpha s, out s, itempA s, W s)"
  have "?g (fold (assign_mix th1) label (st\<lparr>rng := r1\<rparr>)) = ?g (st\<lparr>rng := r1\<rparr>)"
    by (rule fold_preserves) (simp add: assign_mix_frame)
  with rb g d show ?thesis
    by (auto simp: remix_block_def Let_def)
qed

lemma remix_loop_frame:
  "remix_loop E a srt idx i st ths = (st', ths') \<Longrightarrow>
   alpha st' = alpha st \<and> out st' = out st \<and> itempA st' = itempA st \<and> W st' = W st"
proof (induction E a srt idx i st ths rule: remix_loop.induct)
  case (1 E a srt idx i st ths)
  show ?case
  proof (cases "i < t_samp a")
    case True
    obtain i1 th st1 where rb: "remix_block E a srt idx i st = (i1, th, st1)"
      by (metis prod_cases3)
    from "1.prems" True rb have "remix_loop E a srt idx i1 st1 (ths @ [th]) = (st', ths')"
      by (simp add: remix_loop.simps [of E a srt idx i st ths])
    from "1.IH" [OF True rb [symmetric] refl this] remix_block_frame [OF rb] show ?thesis
      by simp
  next
    case False
    with "1.prems" show ?thesis
      by (simp add: remix_loop.simps [of E a srt idx i st ths])
  qed
qed

lemma remix_frame:
  "alpha (remix E a st) = alpha st \<and> out (remix E a st) = out st \<and>
   itempA (remix E a st) = itempA st \<and> W (remix E a st) = W st"
proof -
  obtain srt idx where q: "R_qsort_int_I E (map (sortC st) [0..<t_samp a]) [0..<t_samp a] 1 (t_samp a) = (srt, idx)"
    by (cases "R_qsort_int_I E (map (sortC st) [0..<t_samp a]) [0..<t_samp a] 1 (t_samp a)")
  obtain st1 ths where l: "remix_loop E a srt idx 0 (st\<lparr>nstar := 0\<rparr>) [] = (st1, ths)"
    by (cases "remix_loop E a srt idx 0 (st\<lparr>nstar := 0\<rparr>) []")
  from remix_loop_frame [OF l] q l show ?thesis
    by (simp add: remix_def remix_log_def Let_def)
qed

lemma update_alpha_frame:
  "out (update_alpha E a st) = out st \<and> itempA (update_alpha E a st) = itempA st \<and>
   W (update_alpha E a st) = W st \<and> (pinUpdate a = 0 \<longrightarrow> alpha (update_alpha E a st) = alpha st)"
  by (simp add: update_alpha_def Let_def split: prod.splits)

lemma store_unit_frame:
  "alpha (store_unit E a k st) = alpha st \<and> pdSa (out (store_unit E a k st)) = pdSa (out st) \<and>
   pdSn (out (store_unit E a k st)) = pdSn (out st) \<and>
   itempA (store_unit E a k st) = itempA st \<and> W (store_unit E a k st) = W st"
  by (simp add: store_unit_def Let_def split: prod.splits option.splits)

lemma store_draws_frame:
  "alpha (store_draws E a ml st) = alpha st \<and> W (store_draws E a ml st) = W st \<and>
   (pinUpdate a = 0 \<longrightarrow> pdSa (out (store_draws E a ml st)) = pdSa (out st) \<and>
      pdSn (out (store_draws E a ml st)) = pdSn (out st) \<and>
      itempA (store_draws E a ml st) = itempA st)"
proof -
  let ?g = "\<lambda>s. (alpha s, pdSa (out s), pdSn (out s), itempA s, W s)"
  have "\<And>s. ?g (fold (store_unit E a) [0..<pin_samp a] s) = ?g s"
    by (rule fold_preserves) (simp add: store_unit_frame)
  then show ?thesis
    by (simp add: store_draws_def Let_def)
qed


lemma sweep_unit_total:
  assumes "fst (unif_rand E (rng st)) < 1" and "i < t_samp a"
  shows "sweep_unit E a i st \<noteq> None"
proof -
  have "q_weights E a st i \<noteq> []"
    using assms(2) length_q_weights [of E a st i] by auto
  from polya_pick_normalized [OF assms(1) this] obtain j where
    "polya_pick (fst (unif_rand E (rng st))) (normalize_cum (q_weights E a st i)) 0 = Some j"
    by auto
  from sweep_unit_pick [OF this] show ?thesis by auto
qed

lemma gibbs_iter_total:
  fixes E :: "'r ext"
  assumes "\<forall>r. fst (unif_rand E r) < 1"
  shows "\<exists>st'. gibbs_iter E a ml st = Some st'"
proof -
  have "\<And>s. \<exists>s'. opt_fold (sweep_unit E a) [0..<t_samp a] s = Some s'"
  proof (rule opt_fold_total)
    fix x and s :: "'r dp"
    assume "x \<in> set [0..<t_samp a]"
    then have "x < t_samp a" by simp
    moreover have "fst (unif_rand E (rng s)) < 1" using assms by simp
    ultimately show "sweep_unit E a x s \<noteq> None" by (intro sweep_unit_total)
  qed
  then show ?thesis
    unfolding gibbs_iter_def Let_def by (metis (no_types, lifting) option.simps(5))
qed

lemma gibbs_iter_frame:
  assumes "gibbs_iter E a ml st = Some st'"
  shows "(pinUpdate a = 0 \<longrightarrow> alpha st' = alpha st \<and> pdSa (out st') = pdSa (out st) \<and>
            pdSn (out st') = pdSn (out st) \<and> itempA st' = itempA st) \<and>
         (i < pin_samp a \<and> (Xd a i 1 = 0 \<or> Xd a i 1 = 1) \<longrightarrow> W st' i = W st i)"
proof -
  let ?g = "\<lambda>s. (alpha s, out s, itempA s)"
  define st1 where "st1 = fold (sample_W_unit E a) [0..<pin_samp a] st"
  define st2 where "st2 = (if x1 a = 1 then fold (update_x1_unit E a) [0..<sampx1 a] st1 else st1)"
  define st3 where "st3 = (if x0 a = 1 then fold (update_x0_unit E a) [0..<sampx0 a] st2 else st2)"
  have g1: "?g st1 = ?g st"
    unfolding st1_def by (rule fold_preserves) (simp add: sample_W_unit_frame)
  have w1: "W st1 i = W st i" if "i < pin_samp a \<and> (Xd a i 1 = 0 \<or> Xd a i 1 = 1)"
    unfolding st1_def
    by (rule fold_preserves [where g = "\<lambda>s. W s i"]) (use that sample_W_unit_frame [of E a _ _ i] in auto)
  have g2: "?g st2 = ?g st1"
    unfolding st2_def by (rule fold_preserves_if) (simp add: update_x1_unit_frame)
  have w2: "W st2 i = W st1 i" if "i < pin_samp a"
    unfolding st2_def
    by (rule fold_preserves_if [where g = "\<lambda>s. W s i"]) (simp add: that update_x1_unit_frame)
  have g3: "?g st3 = ?g st2"
    unfolding st3_def by (rule fold_preserves_if) (simp add: update_x0_unit_frame)
  have w3: "W st3 i = W st2 i" if "i < pin_samp a"
    unfolding st3_def
    by (rule fold_preserves_if [where g = "\<lambda>s. W s i"]) (simp add: that update_x0_unit_frame)
  have eq: "gibbs_iter E a ml st =
      (case opt_fold (sweep_unit E a) [0..<t_samp a] st3 of
         None \<Rightarrow> None
       | Some st4 \<Rightarrow> Some (store_draws E a ml (update_alpha E a (remix E a st4))))"
    by (simp only: gibbs_iter_def Let_def st1_def st2_def st3_def)
  from assms obtain st4 where
    st4: "opt_fold (sweep_unit E a) [0..<t_samp a] st3 = Some st4"
    and st': "st' = store_draws E a ml (update_alpha E a (remix E a st4))"
    unfolding eq by (cases "opt_fold (sweep_unit E a) [0..<t_samp a] st3") auto
  let ?h = "\<lambda>s. (alpha s, out s, itempA s, W s)"
  have g4: "?h st4 = ?h st3"
    by (rule opt_fold_preserves [OF _ st4]) (auto dest: sweep_unit_frame)
  show ?thesis
    unfolding st'
    using g1 g2 g3 g4 w1 w2 w3 remix_frame [of E a st4] update_alpha_frame [of E a "remix E a st4"]
      store_draws_frame [of E a ml "update_alpha E a (remix E a st4)"]
    by auto
qed

lemma gibbs_loop_frame:
  assumes "\<forall>r. fst (unif_rand E r) < 1"
  shows "\<exists>st'. gibbs_loop E a k ml st = Some st' \<and>
           (pinUpdate a = 0 \<longrightarrow> alpha st' = alpha st \<and> pdSa (out st') = pdSa (out st) \<and>
              pdSn (out st') = pdSn (out st) \<and> itempA st' = itempA st) \<and>
           (i < pin_samp a \<and> (Xd a i 1 = 0 \<or> Xd a i 1 = 1) \<longrightarrow> W st' i = W st i)"
proof (induction k arbitrary: ml st)
  case 0
  show ?case by simp
next
  case (Suc k)
  from gibbs_iter_total [OF assms] obtain st1 where st1: "gibbs_iter E a ml st = Some st1" by blast
  from Suc.IH [of "Suc ml" st1] obtain st' where
    st': "gibbs_loop E a k (Suc ml) st1 = Some st'"
      "pinUpdate a = 0 \<longrightarrow> alpha st' = alpha st1 \<and> pdSa (out st') = pdSa (out st1) \<and>
              pdSn (out st') = pdSn (out st1) \<and> itempA st' = itempA st1"
      "i < pin_samp a \<and> (Xd a i 1 = 0 \<or> Xd a i 1 = 1) \<longrightarrow> W st' i = W st1 i"
    by blast
  from st1 st'(1) have "gibbs_loop E a (Suc k) ml st = Some st'" by simp
  with st'(2,3) gibbs_iter_frame [OF st1, of i] show ?case by auto
qed

lemma read_x1_unit_frame:
  "alpha (read_x1_unit a k st) = alpha st \<and> out (read_x1_unit a k st) = out st \<and>
   itempA (read_x1_unit a k st) = itempA st \<and>
   (i < pin_samp a \<longrightarrow> W (read_x1_unit a k st) i = W st i)"
  by (simp add: read_x1_unit_def Let_def)

lemma read_x0_unit_frame:
  "alpha (read_x0_unit a k st) = alpha st \<and> out (read_x0_unit a k st) = out st \<and>
   itempA (read_x0_unit a k st) = itempA st \<and>
   (i < pin_samp a \<longrightarrow> W (read_x0_unit a k st) i = W st i)"
  by (simp add: read_x0_unit_def Let_def)

lemma read_survey_unit_frame:
  "alpha (read_survey_unit a k st) = alpha st \<and> out (read_survey_unit a k st) = out st \<and>
   itempA (read_survey_unit a k st) = itempA st \<and>
   (i < pin_samp a \<longrightarrow> W (read_survey_unit a k st) i = W st i)"
  by (simp add: read_survey_unit_def Let_def)

lemma init_theta_unit_frame:
  "alpha (init_theta_unit E a k st) = alpha st \<and> out (init_theta_unit E a k st) = out st \<and>
   itempA (init_theta_unit E a k st) = itempA st \<and> W (init_theta_unit E a k st) = W st"
  by (simp add: init_theta_unit_def Let_def split: prod.splits)

lemma init_state_values:
  "alpha (init_state E a bufs r0) = 1 \<and> out (init_state E a bufs r0) = bufs \<and>
   itempA (init_state E a bufs r0) = 0 \<and>
   (i < pin_samp a \<longrightarrow> W (init_state E a bufs r0) i = init_W_row (Xd a i 1))"
proof -
  let ?g = "\<lambda>s. (alpha s, out s, itempA s)"
  define st0 :: "'a dp" where "st0 =
     \<lparr>W = (\<lambda>i. if i < pin_samp a then init_W_row (Xd a i 1) else doubleArray n_cov),
      Wstar = (\<lambda>i. doubleArray n_cov), mu = (\<lambda>i. doubleArray n_cov),
      Sigma = (\<lambda>i. doubleMatrix n_cov n_cov), InvSigma = (\<lambda>i. doubleMatrix n_cov n_cov),
      C = (\<lambda>i. 0), sortC = (\<lambda>i. 0), nstar = 0, alpha = 1,
      prob_grid = (\<lambda>j. 0), rng = r0, itempA = 0, itempS = 0, itempC = 0, out = bufs\<rparr>"
  define st1 where "st1 = (if x1 a = 1 then fold (read_x1_unit a) [0..<sampx1 a] st0 else st0)"
  define st2 where "st2 = (if x0 a = 1 then fold (read_x0_unit a) [0..<sampx0 a] st1 else st1)"
  define st3 where "st3 = (if survey a = 1 then fold (read_survey_unit a) [0..<sur_samp a] st2 else st2)"
  define st4 where "st4 = fold (init_theta_unit E a) [0..<t_samp a] st3"
  have g0: "?g st0 = (1, bufs, 0)"
    by (simp add: st0_def)
  have w0: "W st0 i = init_W_row (Xd a i 1)" if "i < pin_samp a"
    using that by (simp add: st0_def)
  have g1: "?g st1 = ?g st0"
    unfolding st1_def by (rule fold_preserves_if) (simp add: read_x1_unit_frame)
  have w1: "W st1 i = W st0 i" if "i < pin_samp a"
    unfolding st1_def
    by (rule fold_preserves_if [where g = "\<lambda>s. W s i"]) (simp add: that read_x1_unit_frame)
  have g2: "?g st2 = ?g st1"
    unfolding st2_def by (rule fold_preserves_if) (simp add: read_x0_unit_frame)
  have w2: "W st2 i = W st1 i" if "i < pin_samp a"
    unfolding st2_def
    by (rule fold_preserves_if [where g = "\<lambda>s. W s i"]) (simp add: that read_x0_unit_frame)
  have g3: "?g st3 = ?g st2"
    unfolding st3_def by (rule fold_preserves_if) (simp add: read_survey_unit_frame)
  have w3: "W st3 i = W st2 i" if "i < pin_samp a"
    unfolding st3_def
    by (rule fold_preserves_if [where g = "\<lambda>s. W s i"]) (simp add: that read_survey_unit_frame)
  have g4: "(alpha st4, out st4, itempA st4, W st4) = (alpha st3, out st3, itempA st3, W st3)"
    unfolding st4_def
    by (rule fold_preserves [where g = "\<lambda>s. (alpha s, out s, itempA s, W s)"])
       (simp add: init_theta_unit_frame)
  have "init_state E a bufs r0 = st4\<lparr>nstar := t_samp a, C := (\<lambda>i. if i < t_samp a then i else C st4 i)\<rparr>"
    by (simp only: init_state_def Let_def st0_def st1_def st2_def st3_def st4_def)
  with g0 g1 g2 g3 g4 w0 w1 w2 w3 show ?thesis
    by auto
qed

lemma cDPeco_frame:
  assumes "\<forall>r. fst (unif_rand E r) < 1"
  shows "\<exists>st. cDPeco E a bufs r0 = Some st \<and>
           (pinUpdate a = 0 \<longrightarrow> alpha st = 1 \<and> pdSa (out st) = pdSa bufs \<and>
              pdSn (out st) = pdSn bufs \<and> itempA st = 0) \<and>
           (i < pin_samp a \<and> (Xd a i 1 = 0 \<or> Xd a i 1 = 1) \<longrightarrow> W st i = init_W_row (Xd a i 1))"
  using gibbs_loop_frame [OF assms, of a "n_gen a" 0 "init_state E a bufs r0" i]
    init_state_values [of E a bufs r0 i]
  by (auto simp: cDPeco_def)

section \<open>Degenerate units and the switch of the alpha update\<close>

lemma upt_n_cov: "[0..<n_cov] = [0, Suc 0]"
  by (simp add: n_cov_def numeral_2_eq_2)

lemma vec_of_pair: "vec_of f = [f 0, f (Suc 0)]"
  by (simp add: vec_of_def upt_n_cov)

lemma init_W_row_0: "init_W_row 0 = [1 / 1000000, 1 / 1000000]"
  by (simp add: init_W_row_def vec_of_pair)

lemma unif_test_ext: "\<forall>r. fst (unif_rand test_ext r) < 1"
  by (simp add: test_ext_def)

text \<open>
  C5, as the specification states it, fails: the test of lines 203 and 342 reads the
  second data column, which is the margin Y of the accounting identity, not X. A unit
  with X = 0 and Y = 1/2 starts with W = (0, 0), not 0.000001, and its grid draw is
  made: the update of the unit takes a uniform variate from the generator.
\<close>

theorem zero_X_unit_is_sampled:
  "Xd zero_X_inputs 0 0 = 0 \<and>
   W (init_state test_ext zero_X_inputs test_draws 0) 0 = [0, 0] \<and>
   rng (sample_W_unit test_ext zero_X_inputs 0 test_state) = Suc (rng test_state)"
proof -
  have x: "Xd zero_X_inputs 0 0 = 0" "Xd zero_X_inputs 0 1 = 1 / 2" "pin_samp zero_X_inputs = 1"
    by (simp_all add: Xd_def zero_X_inputs_def test_inputs_def)
  have r: "init_W_row (Xd zero_X_inputs 0 1) = [0, 0]"
    by (simp add: init_W_row_def vec_of_pair Xd_def zero_X_inputs_def test_inputs_def)
  have w: "W (init_state test_ext zero_X_inputs test_draws 0) 0 = [0, 0]"
    using init_state_values [of test_ext zero_X_inputs test_draws 0 0] x(3) r by simp
  have "rng (sample_W_unit test_ext zero_X_inputs 0 test_state) = Suc (rng test_state)"
    using x by (simp add: sample_W_unit_def draw_W_unit_def Let_def test_ext_def split: prod.splits)
  with x w show ?thesis by simp
qed

text \<open>
  C5, amended. A unit whose margin Y (\<^verbatim>\<open>X[i][1]\<close>) is 0 starts with W1 = W2 = 0.000001;
  its update makes no grid draw (it takes nothing from the generator and leaves \<open>W\<close>
  of the unit as it is) in whatever state, and at the end of the run, which has a result
  whenever the uniform draws are below 1, the pair is still (0.000001, 0.000001).
\<close>

theorem zero_Y_unit_is_pinned:
  assumes "i < pin_samp a" and "Xd a i 1 = 0" and "\<forall>r. fst (unif_rand E r) < 1"
  shows "W (init_state E a bufs r0) i = [1 / 1000000, 1 / 1000000] \<and>
         (\<forall>st. W (sample_W_unit E a i st) i = W st i \<and> rng (sample_W_unit E a i st) = rng st) \<and>
         (\<exists>st. cDPeco E a bufs r0 = Some st \<and> W st i = [1 / 1000000, 1 / 1000000])"
proof -
  have "W (init_state E a bufs r0) i = [1 / 1000000, 1 / 1000000]"
    using init_state_values [of E a bufs r0 i] assms(1,2) by (simp add: init_W_row_0)
  moreover have "\<forall>st. W (sample_W_unit E a i st) i = W st i \<and> rng (sample_W_unit E a i st) = rng st"
    using assms(2) by (simp add: sample_W_unit_def)
  moreover have "\<exists>st. cDPeco E a bufs r0 = Some st \<and> W st i = [1 / 1000000, 1 / 1000000]"
    using cDPeco_frame [OF assms(3), of a bufs r0 i] assms(1,2) by (auto simp: init_W_row_0)
  ultimately show ?thesis by blast
qed

theorem zero_Y_unit_is_pinned_witness:
  "(0::nat) < pin_samp zero_Y_inputs \<and> Xd zero_Y_inputs 0 1 = 0 \<and>
   (\<forall>r. fst (unif_rand test_ext r) < 1) \<and>
   W (init_state test_ext zero_Y_inputs test_draws 0) 0 = [1 / 1000000, 1 / 1000000] \<and>
   (\<exists>st. cDPeco test_ext zero_Y_inputs test_draws 0 = Some st \<and> W st 0 = [1 / 1000000, 1 / 1000000])"
proof -
  have x: "(0::nat) < pin_samp zero_Y_inputs" "Xd zero_Y_inputs 0 1 = 0"
    by (simp_all add: Xd_def zero_Y_inputs_def test_inputs_def)
  from zero_Y_unit_is_pinned [OF x unif_test_ext, of test_draws 0] x unif_test_ext
  show ?thesis by blast
qed

text \<open>
  C1, amended. With the update of alpha switched off, alpha is 1 at the end of a run of
  any length, and nothing is ever written to the buffers of alpha and nstar: \<^verbatim>\<open>pdSa\<close>
  and \<^verbatim>\<open>pdSn\<close> are as the caller passed them and their counter \<^verbatim>\<open>itempA\<close> is 0.
\<close>

theorem alpha_update_disabled:
  assumes "pinUpdate a = 0" and "\<forall>r. fst (unif_rand E r) < 1"
  shows "\<exists>st. cDPeco E a bufs r0 = Some st \<and> alpha st = 1 \<and>
           pdSa (out st) = pdSa bufs \<and> pdSn (out st) = pdSn bufs \<and> itempA st = 0"
  using cDPeco_frame [OF assms(2), of a bufs r0 0] assms(1) by auto

theorem alpha_update_disabled_witness:
  "pinUpdate test_inputs = 0 \<and> (\<forall>r. fst (unif_rand test_ext r) < 1) \<and>
   (\<exists>st. cDPeco test_ext test_inputs test_draws 0 = Some st \<and> alpha st = 1 \<and> itempA st = 0)"
proof -
  have p: "pinUpdate test_inputs = 0" by (simp add: test_inputs_def)
  from alpha_update_disabled [OF p unif_test_ext, of test_draws 0] p unif_test_ext
  show ?thesis by blast
qed

section \<open>The remix pass\<close>

lemma gather_result:
  assumes "gather t srt idx Wst j i label Wm Wb = (i', label', Wm', Wb')" and "i \<le> t"
  shows "i \<le> i' \<and> i' \<le> t \<and> label' = label @ map (\<lambda>k. idx ! k) [i..<i'] \<and>
         (\<forall>k. i \<le> k \<and> k < i' \<longrightarrow> srt ! k = j) \<and> (i' = t \<or> srt ! i' \<noteq> j)"
  using assms
proof (induction t srt idx Wst j i label Wm Wb rule: gather.induct)
  case (1 t srt idx Wst j i label Wm Wb)
  show ?case
  proof (cases "srt ! i = j \<and> i < t")
    case True
    let ?row = "vec_of (\<lambda>k. Wst (idx ! i) ! k)"
    have eq: "gather t srt idx Wst j i label Wm Wb =
       gather t srt idx Wst j (Suc i) (label @ [idx ! i]) (Wm @ [?row]) (vec_of (\<lambda>k. Wb ! k + ?row ! k))"
      using True gather.simps [of t srt idx Wst j i label Wm Wb] by (auto simp: Let_def)
    from True have le: "Suc i \<le> t" by simp
    from "1.IH" [OF True refl refl "1.prems"(1) [unfolded eq] le]
    have ih: "Suc i \<le> i'" "i' \<le> t" "label' = (label @ [idx ! i]) @ map (\<lambda>k. idx ! k) [Suc i..<i']"
      "\<forall>k. Suc i \<le> k \<and> k < i' \<longrightarrow> srt ! k = j" "i' = t \<or> srt ! i' \<noteq> j"
      by auto
    from ih(1) have "[i..<i'] = i # [Suc i..<i']" by (simp add: upt_conv_Cons)
    with ih(3) have l: "label' = label @ map (\<lambda>k. idx ! k) [i..<i']" by simp
    have "\<forall>k. i \<le> k \<and> k < i' \<longrightarrow> srt ! k = j"
    proof (intro allI impI)
      fix k
      assume k: "i \<le> k \<and> k < i'"
      show "srt ! k = j"
      proof (cases "k = i")
        case True
        with \<open>srt ! i = j \<and> i < t\<close> show ?thesis by simp
      next
        case False
        with k have "Suc i \<le> k \<and> k < i'" by simp
        with ih(4) show ?thesis by blast
      qed
    qed
    with ih(1,2,5) l show ?thesis by auto
  next
    case False
    have eq: "gather t srt idx Wst j i label Wm Wb = (i, label, Wm, Wb)"
      using False gather.simps [of t srt idx Wst j i label Wm Wb] by auto
    with "1.prems" False show ?thesis by auto
  qed
qed

lemma assign_mix_nstar: "nstar (assign_mix th l st) = nstar st"
  by (simp add: assign_mix_def)

lemma fold_assign_mix:
  "nstar (fold (assign_mix th) ls st) = nstar st \<and>
   C (fold (assign_mix th) ls st) u = (if u \<in> set ls then nstar st else C st u) \<and>
   mu (fold (assign_mix th) ls st) u = (if u \<in> set ls then copy_vec (fst th) else mu st u) \<and>
   Sigma (fold (assign_mix th) ls st) u = (if u \<in> set ls then copy_mat (fst (snd th)) else Sigma st u) \<and>
   InvSigma (fold (assign_mix th) ls st) u = (if u \<in> set ls then copy_mat (snd (snd th)) else InvSigma st u)"
proof (induction ls arbitrary: st)
  case Nil
  show ?case by simp
next
  case (Cons l ls)
  show ?case
    using Cons.IH [of "assign_mix th l st"]
    by (auto simp: assign_mix_def)
qed

lemma copy_vec_idem: "copy_vec (copy_vec v) = copy_vec v"
  by (simp add: copy_vec_def vec_of_pair)

lemma mat_of_rows: "mat_of f = [[f 0 0, f 0 (Suc 0)], [f (Suc 0) 0, f (Suc 0) (Suc 0)]]"
  by (simp add: mat_of_def upt_n_cov)

lemma copy_mat_idem: "copy_mat (copy_mat m) = copy_mat m"
  by (simp add: copy_mat_def mat_of_rows)

lemma draw_mix_copies:
  assumes "draw_mix E a Wm Wsum r = (th, r1)"
  shows "copy_vec (fst th) = fst th \<and> copy_mat (fst (snd th)) = fst (snd th) \<and>
         copy_mat (snd (snd th)) = snd (snd th)"
  using assms
  by (auto simp: draw_mix_def Let_def copy_vec_idem copy_mat_idem split: prod.splits)

lemma remix_block_result:
  assumes rb: "remix_block E a srt idx i st = (i', th, st1)" and i: "i < t_samp a"
  shows "i < i' \<and> i' \<le> t_samp a \<and> nstar st1 = nstar st + 1 \<and>
         (\<forall>k. i \<le> k \<and> k < i' \<longrightarrow> srt ! k = srt ! i) \<and> (i' = t_samp a \<or> srt ! i' \<noteq> srt ! i) \<and>
         (\<forall>u. C st1 u = (if u \<in> (\<lambda>k. idx ! k) ` {i..<i'} then nstar st else C st u) \<and>
              (mu st1 u, Sigma st1 u, InvSigma st1 u) =
                (if u \<in> (\<lambda>k. idx ! k) ` {i..<i'} then th else (mu st u, Sigma st u, InvSigma st u)))"
proof -
  obtain j label Wm Wsum where
    g: "gather (t_samp a) srt idx (Wstar st) (srt ! i) i [] [] (vec_of (\<lambda>k. 0)) = (j, label, Wm, Wsum)"
    by (metis prod_cases4)
  obtain th1 r1 where d: "draw_mix E a Wm Wsum (rng st) = (th1, r1)"
    by (cases "draw_mix E a Wm Wsum (rng st)")
  define st0 where "st0 = fold (assign_mix th1) label (st\<lparr>rng := r1\<rparr>)"
  have "remix_block E a srt idx i st = (j, th1, st0\<lparr>nstar := nstar st0 + 1\<rparr>)"
    by (simp add: remix_block_def Let_def g d st0_def)
  with rb have e: "i' = j" "th = th1" "st1 = st0\<lparr>nstar := nstar st0 + 1\<rparr>"
    by simp_all
  note gr0 = gather_result [OF g less_imp_le [OF i]]
  note gr = gr0 [THEN conjunct1] gr0 [THEN conjunct2, THEN conjunct1]
    gr0 [THEN conjunct2, THEN conjunct2, THEN conjunct1, simplified]
    gr0 [THEN conjunct2, THEN conjunct2, THEN conjunct2, THEN conjunct1]
    gr0 [THEN conjunct2, THEN conjunct2, THEN conjunct2, THEN conjunct2]
  from gr(1,5) i have lt: "i < j" by (cases "i = j") auto
  have sl: "(\<lambda>k. idx ! k) ` {i..<j} = set label"
    by (simp add: gr(3))
  have n0: "nstar st0 = nstar st"
    unfolding st0_def using fold_assign_mix [of th1 label "st\<lparr>rng := r1\<rparr>"] by simp
  have f: "C st0 u = (if u \<in> set label then nstar st else C st u)"
      "mu st0 u = (if u \<in> set label then fst th1 else mu st u)"
      "Sigma st0 u = (if u \<in> set label then fst (snd th1) else Sigma st u)"
      "InvSigma st0 u = (if u \<in> set label then snd (snd th1) else InvSigma st u)" for u
    unfolding st0_def
    using fold_assign_mix [of th1 label "st\<lparr>rng := r1\<rparr>" u] draw_mix_copies [OF d]
    by simp_all
  have main: "\<forall>u. C st1 u = (if u \<in> (\<lambda>k. idx ! k) ` {i..<j} then nstar st else C st u) \<and>
        (mu st1 u, Sigma st1 u, InvSigma st1 u) =
          (if u \<in> (\<lambda>k. idx ! k) ` {i..<j} then th1 else (mu st u, Sigma st u, InvSigma st u))"
  proof (intro allI)
    fix u
    show "C st1 u = (if u \<in> (\<lambda>k. idx ! k) ` {i..<j} then nstar st else C st u) \<and>
        (mu st1 u, Sigma st1 u, InvSigma st1 u) =
          (if u \<in> (\<lambda>k. idx ! k) ` {i..<j} then th1 else (mu st u, Sigma st u, InvSigma st u))"
      unfolding sl e(3) by (simp add: f)
  qed
  have n1: "nstar st1 = nstar st + 1"
    unfolding e(3) by (simp add: n0)
  show ?thesis
    unfolding e(1,2)
  proof (intro conjI)
    show "i < j" by (rule lt)
    show "j \<le> t_samp a" by (rule gr(2))
    show "nstar st1 = nstar st + 1" by (rule n1)
    show "\<forall>k. i \<le> k \<and> k < j \<longrightarrow> srt ! k = srt ! i" by (rule gr(4))
    show "j = t_samp a \<or> srt ! j \<noteq> srt ! i" by (rule gr(5))
    show "\<forall>u. C st1 u = (if u \<in> (\<lambda>k. idx ! k) ` {i..<j} then nstar st else C st u) \<and>
        (mu st1 u, Sigma st1 u, InvSigma st1 u) =
          (if u \<in> (\<lambda>k. idx ! k) ` {i..<j} then th1 else (mu st u, Sigma st u, InvSigma st u))"
      by (rule main)
  qed
qed

lemma remix_inv_step:
  assumes inv: "remix_inv srt idx (t_samp a) i st ths"
    and i: "i < t_samp a"
    and inj: "inj_on (\<lambda>k. idx ! k) {0..<t_samp a}"
    and srt: "\<forall>k k'. k \<le> k' \<and> k' < t_samp a \<longrightarrow> srt ! k \<le> srt ! k'"
    and rb: "remix_block E a srt idx i st = (i', th, st1)"
  shows "remix_inv srt idx (t_samp a) i' st1 (ths @ [th])"
proof -
  let ?t = "t_samp a"
  let ?S = "(\<lambda>k. idx ! k) ` {i..<i'}"
  note r = remix_block_result [OF rb i]
  have ii': "i < i'" and i't: "i' \<le> ?t" and n1: "nstar st1 = nstar st + 1"
    and blk: "\<And>k. i \<le> k \<Longrightarrow> k < i' \<Longrightarrow> srt ! k = srt ! i"
    and stop: "i' = ?t \<or> srt ! i' \<noteq> srt ! i"
    and C1: "\<And>u. C st1 u = (if u \<in> ?S then nstar st else C st u)"
    and P1: "\<And>u. (mu st1 u, Sigma st1 u, InvSigma st1 u) =
                (if u \<in> ?S then th else (mu st u, Sigma st u, InvSigma st u))"
    using r by blast+
  have len: "length ths = nstar st" and nle: "nstar st \<le> i"
    and old: "\<And>k. k < i \<Longrightarrow> C st (idx ! k) < nstar st \<and>
            (mu st (idx ! k), Sigma st (idx ! k), InvSigma st (idx ! k)) = ths ! C st (idx ! k)"
    and onto: "\<And>m. m < nstar st \<Longrightarrow> \<exists>k<i. C st (idx ! k) = m"
    and grp: "\<And>k k'. k < i \<Longrightarrow> k' < i \<Longrightarrow> (C st (idx ! k) = C st (idx ! k')) = (srt ! k = srt ! k')"
    and sep: "\<And>k k'. k < i \<Longrightarrow> i \<le> k' \<Longrightarrow> k' < ?t \<Longrightarrow> srt ! k < srt ! k'"
    using inv unfolding remix_inv_def by blast+
  have inS: "idx ! k \<in> ?S" if "i \<le> k" "k < i'" for k
    using that by auto
  have notS: "idx ! k \<notin> ?S" if "k < i" for k
  proof
    assume "idx ! k \<in> ?S"
    then obtain k' where k': "i \<le> k'" "k' < i'" "idx ! k = idx ! k'" by auto
    with that i't have "k \<in> {0..<?t}" "k' \<in> {0..<?t}" by auto
    with inj k'(3) have "k = k'" by (auto dest: inj_onD)
    with that k'(1) show False by simp
  qed
  have new: "C st1 (idx ! k) = nstar st \<and> (mu st1 (idx ! k), Sigma st1 (idx ! k), InvSigma st1 (idx ! k)) = th"
    if "i \<le> k" "k < i'" for k
    using inS [OF that] C1 [of "idx ! k"] P1 [of "idx ! k"] by simp
  have same: "C st1 (idx ! k) = C st (idx ! k) \<and>
      (mu st1 (idx ! k), Sigma st1 (idx ! k), InvSigma st1 (idx ! k)) =
      (mu st (idx ! k), Sigma st (idx ! k), InvSigma st (idx ! k))" if "k < i" for k
    using notS [OF that] C1 [of "idx ! k"] P1 [of "idx ! k"] by simp
  have a: "length (ths @ [th]) = nstar st1"
    by (simp add: len n1)
  have b: "nstar st1 \<le> i'"
    using n1 nle ii' by simp
  have c: "\<forall>k<i'. C st1 (idx ! k) < nstar st1 \<and>
            (mu st1 (idx ! k), Sigma st1 (idx ! k), InvSigma st1 (idx ! k)) = (ths @ [th]) ! C st1 (idx ! k)"
  proof (intro allI impI)
    fix k assume k: "k < i'"
    show "C st1 (idx ! k) < nstar st1 \<and>
            (mu st1 (idx ! k), Sigma st1 (idx ! k), InvSigma st1 (idx ! k)) = (ths @ [th]) ! C st1 (idx ! k)"
    proof (cases "k < i")
      case True
      from old [OF True] same [OF True] len n1 show ?thesis
        by (simp add: nth_append)
    next
      case False
      then have "i \<le> k" by simp
      from new [OF this k] len n1 show ?thesis
        by (simp add: nth_append)
    qed
  qed
  have d: "\<forall>m<nstar st1. \<exists>k<i'. C st1 (idx ! k) = m"
  proof (intro allI impI)
    fix m assume m: "m < nstar st1"
    show "\<exists>k<i'. C st1 (idx ! k) = m"
    proof (cases "m < nstar st")
      case True
      from onto [OF True] obtain k where k: "k < i" "C st (idx ! k) = m" by blast
      with same [OF k(1)] ii' show ?thesis by (intro exI [of _ k]) simp
    next
      case False
      with m n1 have "m = nstar st" by simp
      with new [of i] ii' show ?thesis by (intro exI [of _ i]) simp
    qed
  qed
  have e: "\<forall>k<i'. \<forall>k'<i'. (C st1 (idx ! k) = C st1 (idx ! k')) = (srt ! k = srt ! k')"
  proof (intro allI impI)
    fix k k' assume k: "k < i'" and k': "k' < i'"
    show "(C st1 (idx ! k) = C st1 (idx ! k')) = (srt ! k = srt ! k')"
    proof (cases "k < i")
      case kl: True
      show ?thesis
      proof (cases "k' < i")
        case True
        with kl grp [OF kl True] same [OF kl] same [OF True] show ?thesis by simp
      next
        case False
        then have ik': "i \<le> k'" by simp
        from sep [OF kl ik'] k' i't have "srt ! k < srt ! k'" by simp
        moreover from old [OF kl] same [OF kl] new [OF ik' k'] have "C st1 (idx ! k) \<noteq> C st1 (idx ! k')" by simp
        ultimately show ?thesis by simp
      qed
    next
      case False
      then have ik: "i \<le> k" by simp
      show ?thesis
      proof (cases "k' < i")
        case True
        from sep [OF True ik] k i't have "srt ! k' < srt ! k" by simp
        moreover from old [OF True] same [OF True] new [OF ik k] have "C st1 (idx ! k) \<noteq> C st1 (idx ! k')" by simp
        ultimately show ?thesis by simp
      next
        case False
        then have ik': "i \<le> k'" by simp
        from new [OF ik k] new [OF ik' k'] blk [OF ik k] blk [OF ik' k'] show ?thesis by simp
      qed
    qed
  qed
  have f: "\<forall>k<i'. \<forall>k'. i' \<le> k' \<and> k' < ?t \<longrightarrow> srt ! k < srt ! k'"
  proof (intro allI impI)
    fix k k' assume k: "k < i'" and k': "i' \<le> k' \<and> k' < ?t"
    show "srt ! k < srt ! k'"
    proof (cases "k < i")
      case True
      from k' ii' have "i \<le> k'" by simp
      from sep [OF True this] k' show ?thesis by simp
    next
      case False
      then have ik: "i \<le> k" by simp
      from k' have "i' \<noteq> ?t" by simp
      with stop have ne: "srt ! i' \<noteq> srt ! i" by simp
      from srt ii' k' have "srt ! i \<le> srt ! i'" by (metis le_less_trans less_imp_le)
      with ne have "srt ! i < srt ! i'" by simp
      moreover from srt k' have "srt ! i' \<le> srt ! k'" by blast
      ultimately show ?thesis using blk [OF ik k] by simp
    qed
  qed
  from a b c d e f show ?thesis
    unfolding remix_inv_def by blast
qed

lemma remix_loop_inv:
  assumes "remix_loop E a srt idx i st ths = (st', ths')"
    and "remix_inv srt idx (t_samp a) i st ths"
    and "i \<le> t_samp a"
    and inj: "inj_on (\<lambda>k. idx ! k) {0..<t_samp a}"
    and srt: "\<forall>k k'. k \<le> k' \<and> k' < t_samp a \<longrightarrow> srt ! k \<le> srt ! k'"
  shows "remix_inv srt idx (t_samp a) (t_samp a) st' ths'"
  using assms
proof (induction E a srt idx i st ths rule: remix_loop.induct)
  case (1 E a srt idx i st ths)
  show ?case
  proof (cases "i < t_samp a")
    case True
    obtain i1 th st1 where rb: "remix_block E a srt idx i st = (i1, th, st1)"
      by (metis prod_cases3)
    from "1.prems"(1) True rb have l: "remix_loop E a srt idx i1 st1 (ths @ [th]) = (st', ths')"
      by (simp add: remix_loop.simps [of E a srt idx i st ths])
    have inv1: "remix_inv srt idx (t_samp a) i1 st1 (ths @ [th])"
      by (rule remix_inv_step [OF "1.prems"(2) True "1.prems"(4,5) rb])
    have "i1 \<le> t_samp a" using remix_block_result [OF rb True] by simp
    from "1.IH" [OF True rb [symmetric] refl l inv1 this "1.prems"(4,5)] show ?thesis .
  next
    case False
    with "1.prems"(1) have "st' = st" "ths' = ths"
      by (simp_all add: remix_loop.simps [of E a srt idx i st ths])
    moreover from False "1.prems"(3) have "i = t_samp a" by simp
    ultimately show ?thesis using "1.prems"(2) by simp
  qed
qed

text \<open>
  C7. Let the sort have returned the keys in ascending order and the unit indices
  permuted along with them. After the remix pass the labels of the units of the
  effective sample are exactly the numbers below \<^verbatim>\<open>nstar\<close>; the pass has drawn
  \<^verbatim>\<open>nstar\<close> parameters, and the mean, covariance and inverse covariance of every unit
  are the parameter drawn for its label; two units share a label after the pass exactly
  if they shared one before it.
\<close>

theorem remix_labels_dense:
  assumes q: "R_qsort_int_I E (map (sortC st) [0..<t_samp a]) [0..<t_samp a] 1 (t_samp a) = (srt, idx)"
    and idx: "length idx = t_samp a" "set idx = {0..<t_samp a}"
    and srt: "length srt = t_samp a" "sorted srt" "\<forall>k<t_samp a. srt ! k = sortC st (idx ! k)"
  shows "C (remix E a st) ` {0..<t_samp a} = {0..<nstar (remix E a st)} \<and>
         length (snd (remix_log E a st)) = nstar (remix E a st) \<and>
         (\<forall>u<t_samp a. (mu (remix E a st) u, Sigma (remix E a st) u, InvSigma (remix E a st) u)
                          = snd (remix_log E a st) ! C (remix E a st) u) \<and>
         (\<forall>u<t_samp a. \<forall>v<t_samp a.
            (C (remix E a st) u = C (remix E a st) v) = (sortC st u = sortC st v))"
proof -
  let ?t = "t_samp a"
  obtain st1 ths where l: "remix_loop E a srt idx 0 (st\<lparr>nstar := 0\<rparr>) [] = (st1, ths)"
    by (cases "remix_loop E a srt idx 0 (st\<lparr>nstar := 0\<rparr>) []")
  have rl: "remix_log E a st = (st1\<lparr>sortC := (\<lambda>i. if i < ?t then srt ! i else sortC st1 i)\<rparr>, ths)"
    using q l by (simp add: remix_log_def Let_def)
  have r: "C (remix E a st) = C st1" "mu (remix E a st) = mu st1" "Sigma (remix E a st) = Sigma st1"
    "InvSigma (remix E a st) = InvSigma st1" "nstar (remix E a st) = nstar st1"
    "snd (remix_log E a st) = ths"
    by (simp_all add: remix_def rl)
  have "card (set idx) = length idx" by (simp add: idx)
  then have dist: "distinct idx" by (rule card_distinct)
  have inj: "inj_on (\<lambda>k. idx ! k) {0..<?t}"
    using dist idx(1) by (auto simp: inj_on_def nth_eq_iff_index_eq)
  have mono: "\<forall>k k'. k \<le> k' \<and> k' < ?t \<longrightarrow> srt ! k \<le> srt ! k'"
    using srt(1,2) by (auto simp: sorted_iff_nth_mono)
  have inv0: "remix_inv srt idx ?t 0 (st\<lparr>nstar := 0\<rparr>) []"
    by (simp add: remix_inv_def)
  note inv = remix_loop_inv [OF l inv0 _ inj mono, simplified, unfolded remix_inv_def]
  have len: "length ths = nstar st1"
    and par: "\<And>k. k < ?t \<Longrightarrow> C st1 (idx ! k) < nstar st1 \<and>
            (mu st1 (idx ! k), Sigma st1 (idx ! k), InvSigma st1 (idx ! k)) = ths ! C st1 (idx ! k)"
    and onto: "\<And>m. m < nstar st1 \<Longrightarrow> \<exists>k<?t. C st1 (idx ! k) = m"
    and grp: "\<And>k k'. k < ?t \<Longrightarrow> k' < ?t \<Longrightarrow> (C st1 (idx ! k) = C st1 (idx ! k')) = (srt ! k = srt ! k')"
    using inv by blast+
  have pos: "\<exists>k<?t. idx ! k = u" if "u < ?t" for u
  proof -
    from that idx(2) have "u \<in> set idx" by simp
    then show ?thesis using idx(1) by (auto simp: in_set_conv_nth)
  qed
  have rng: "idx ! k < ?t" if "k < ?t" for k
  proof -
    from that idx(1) have "idx ! k \<in> set idx" by simp
    with idx(2) show ?thesis by simp
  qed
  have A: "C st1 ` {0..<?t} = {0..<nstar st1}"
  proof (intro equalityI subsetI)
    fix m assume "m \<in> C st1 ` {0..<?t}"
    then obtain u where u: "u < ?t" "m = C st1 u" by auto
    from pos [OF u(1)] obtain k where "k < ?t" "idx ! k = u" by blast
    with par [of k] u(2) show "m \<in> {0..<nstar st1}" by auto
  next
    fix m assume "m \<in> {0..<nstar st1}"
    then have "m < nstar st1" by simp
    from onto [OF this] obtain k where k: "k < ?t" "C st1 (idx ! k) = m" by blast
    with rng [OF k(1)] show "m \<in> C st1 ` {0..<?t}" by force
  qed
  have B: "\<forall>u<?t. (mu st1 u, Sigma st1 u, InvSigma st1 u) = ths ! C st1 u"
  proof (intro allI impI)
    fix u assume "u < ?t"
    from pos [OF this] obtain k where "k < ?t" "idx ! k = u" by blast
    with par [of k] show "(mu st1 u, Sigma st1 u, InvSigma st1 u) = ths ! C st1 u" by auto
  qed
  have D: "\<forall>u<?t. \<forall>v<?t. (C st1 u = C st1 v) = (sortC st u = sortC st v)"
  proof (intro allI impI)
    fix u v assume "u < ?t" "v < ?t"
    from pos [OF this(1)] obtain k where k: "k < ?t" "idx ! k = u" by blast
    from pos [OF \<open>v < ?t\<close>] obtain k' where k': "k' < ?t" "idx ! k' = v" by blast
    from grp [OF k(1) k'(1)] srt(3) k k' show "(C st1 u = C st1 v) = (sortC st u = sortC st v)"
      by simp
  qed
  from A len B D show ?thesis
    unfolding r by blast
qed

theorem remix_labels_dense_witness:
  "R_qsort_int_I test_ext (map (sortC test_state) [0..<t_samp test_inputs]) [0..<t_samp test_inputs] 1
      (t_samp test_inputs) = ([0, 1, 2], [0, 1, 2]) \<and>
   length [0::nat, 1, 2] = t_samp test_inputs \<and> set [0::nat, 1, 2] = {0..<t_samp test_inputs} \<and>
   sorted [0::nat, 1, 2] \<and>
   C (remix test_ext test_inputs test_state) ` {0..<t_samp test_inputs}
     = {0..<nstar (remix test_ext test_inputs test_state)} \<and>
   length (snd (remix_log test_ext test_inputs test_state)) = nstar (remix test_ext test_inputs test_state)"
proof -
  have t: "t_samp test_inputs = 3"
    by (simp add: t_samp_def test_inputs_def)
  have u: "[0..<3] = [0, 1, 2]"
    by (simp add: upt_conv_Cons)
  have q: "R_qsort_int_I test_ext (map (sortC test_state) [0..<t_samp test_inputs]) [0..<t_samp test_inputs] 1
      (t_samp test_inputs) = ([0, 1, 2], [0, 1, 2])"
    unfolding t u by (simp add: test_ext_def test_state_def)
  have s: "set [0::nat, 1, 2] = {0..<t_samp test_inputs}"
    unfolding t by auto
  have h: "\<forall>k<t_samp test_inputs. [0::nat, 1, 2] ! k = sortC test_state ([0, 1, 2] ! k)"
    by (simp add: test_state_def)
  have l: "length [0::nat, 1, 2] = t_samp test_inputs"
    by (simp add: t)
  have o: "sorted [0::nat, 1, 2]" by simp
  from remix_labels_dense [OF q l s l o h] q l s o show ?thesis
    by blast
qed

section \<open>The number of clusters and the buffers of alpha and nstar\<close>

lemma remix_loop_nstar:
  assumes "remix_loop E a srt idx i st ths = (st', ths')" and "nstar st \<le> i" and "i \<le> t_samp a"
  shows "nstar st' \<le> t_samp a"
  using assms
proof (induction E a srt idx i st ths rule: remix_loop.induct)
  case (1 E a srt idx i st ths)
  show ?case
  proof (cases "i < t_samp a")
    case True
    obtain i1 th st1 where rb: "remix_block E a srt idx i st = (i1, th, st1)"
      by (metis prod_cases3)
    from "1.prems"(1) True rb have l: "remix_loop E a srt idx i1 st1 (ths @ [th]) = (st', ths')"
      by (simp add: remix_loop.simps [of E a srt idx i st ths])
    note r = remix_block_result [OF rb True]
    from r have i1: "i < i1" "i1 \<le> t_samp a" "nstar st1 = nstar st + 1" by blast+
    with "1.prems"(2) have "nstar st1 \<le> i1" by simp
    from "1.IH" [OF True rb [symmetric] refl l this i1(2)] show ?thesis .
  next
    case False
    with "1.prems" show ?thesis
      by (simp add: remix_loop.simps [of E a srt idx i st ths])
  qed
qed

lemma remix_nstar: "nstar (remix E a st) \<le> t_samp a"
proof -
  obtain srt idx where q: "R_qsort_int_I E (map (sortC st) [0..<t_samp a]) [0..<t_samp a] 1 (t_samp a) = (srt, idx)"
    by (cases "R_qsort_int_I E (map (sortC st) [0..<t_samp a]) [0..<t_samp a] 1 (t_samp a)")
  obtain st1 ths where l: "remix_loop E a srt idx 0 (st\<lparr>nstar := 0\<rparr>) [] = (st1, ths)"
    by (cases "remix_loop E a srt idx 0 (st\<lparr>nstar := 0\<rparr>) []")
  from remix_loop_nstar [OF l] have "nstar st1 \<le> t_samp a" by simp
  with q l show ?thesis
    by (simp add: remix_def remix_log_def Let_def)
qed

lemma update_alpha_nstar: "nstar (update_alpha E a st) = nstar st"
  by (simp add: update_alpha_def Let_def split: prod.splits)

lemma store_unit_nstar: "nstar (store_unit E a k st) = nstar st"
  by (simp add: store_unit_def Let_def split: prod.splits option.splits)

lemma store_draws_nstar: "nstar (store_draws E a ml st) = nstar st"
proof -
  have "\<And>s. nstar (fold (store_unit E a) [0..<pin_samp a] s) = nstar s"
    by (rule fold_preserves) (simp add: store_unit_nstar)
  then show ?thesis
    by (simp add: store_draws_def Let_def)
qed

lemma gibbs_iter_nstar:
  assumes "gibbs_iter E a ml st = Some st'"
  shows "nstar st' \<le> t_samp a"
proof -
  from assms obtain st4 where "st' = store_draws E a ml (update_alpha E a (remix E a st4))"
    by (auto simp: gibbs_iter_def Let_def split: option.splits)
  then show ?thesis
    by (simp add: store_draws_nstar update_alpha_nstar remix_nstar)
qed

lemma gibbs_loop_nstar:
  assumes "gibbs_loop E a k ml st = Some st'" and "nstar st \<le> t_samp a"
  shows "nstar st' \<le> t_samp a"
  using assms
proof (induction k arbitrary: ml st)
  case 0
  then show ?case by simp
next
  case (Suc k)
  from Suc.prems(1) obtain st1 where
    st1: "gibbs_iter E a ml st = Some st1" "gibbs_loop E a k (Suc ml) st1 = Some st'"
    by (auto split: option.splits)
  from Suc.IH [OF st1(2) gibbs_iter_nstar [OF st1(1)]] show ?case .
qed

lemma cDPeco_nstar:
  assumes "cDPeco E a bufs r0 = Some st"
  shows "nstar st \<le> t_samp a"
proof -
  have "nstar (init_state E a bufs r0) = t_samp a"
    by (simp add: init_state_def Let_def)
  with gibbs_loop_nstar [OF assms [unfolded cDPeco_def]] show ?thesis by simp
qed

text \<open>
  C1, as the specification states it, fails: nothing is stored for alpha and nstar when
  the update is switched off. A run of two stored rounds over three units, started with
  7 in every cell of \<^verbatim>\<open>pdSa\<close> and 99 in every cell of \<^verbatim>\<open>pdSn\<close>, ends with the 7 and
  the 99 still in the first cells (neither the alpha 1.0 nor an nstar, which is at most
  3) and with the counter of these buffers at 0.
\<close>

theorem alpha_and_nstar_not_stored:
  "\<exists>st. cDPeco test_ext test_inputs test_draws 0 = Some st \<and>
         pdSa (out st) 0 = 7 \<and> pdSn (out st) 0 = 99 \<and> itempA st = 0 \<and> nstar st \<le> 3"
proof -
  have p: "pinUpdate test_inputs = 0" by (simp add: test_inputs_def)
  have t: "t_samp test_inputs = 3" by (simp add: t_samp_def test_inputs_def)
  from cDPeco_frame [OF unif_test_ext, of test_inputs test_draws 0 0] p obtain st where
    st: "cDPeco test_ext test_inputs test_draws 0 = Some st" "pdSa (out st) = pdSa test_draws"
      "pdSn (out st) = pdSn test_draws" "itempA st = 0"
    by auto
  from cDPeco_nstar [OF st(1)] t have "nstar st \<le> 3" by simp
  with st show ?thesis
    by (intro exI [of _ st]) (simp add: test_draws_def)
qed

section \<open>The accounting identity\<close>

lemma fold_establishes:
  assumes "\<And>s. P (f i s)" and "\<And>x s. P s \<Longrightarrow> P (f x s)" and "i \<in> set xs"
  shows "P (fold f xs s)"
  using assms(3)
proof (induction xs arbitrary: s)
  case Nil
  then show ?case by simp
next
  case (Cons x xs)
  show ?case
  proof (cases "i \<in> set xs")
    case True
    from Cons.IH [OF True] show ?thesis by simp
  next
    case False
    with Cons.prems have "x = i" by simp
    have "\<And>s. P s \<Longrightarrow> P (fold f xs s)"
      using assms(2) by (induction xs) auto
    with assms(1) [of s] \<open>x = i\<close> show ?thesis by simp
  qed
qed

lemma sample_W_unit_identity:
  assumes "0 < Xd a i 0" and "Xd a i 0 < 1" and "Xd a i 1 \<noteq> 0" and "Xd a i 1 \<noteq> 1"
  shows "Xd a i 0 * W (sample_W_unit E a i st) i ! 0 + (1 - Xd a i 0) * W (sample_W_unit E a i st) i ! 1
           = Xd a i 1"
proof -
  let ?g = "calc_grid (Xd a i 0) (Xd a i 1)"
  from draw_W_unit_grid_point [OF assms(3,4), of E st] obtain j where
    j: "j < n_grid ?g" "W (draw_W_unit E a i st) i = [fin (W1g ?g j), fin (W2g ?g j)]" by blast
  have x: "Xd a i 0 \<noteq> 1" "Xd a i 0 = 0 \<longrightarrow> 0 < Xd a i 1 \<and> Xd a i 1 < 1"
    using assms(1,2) by simp_all
  from grid_finite [OF assms(3,4) x j(1)] obtain w1 where
    g: "W1g ?g j = Fin w1" "W2g ?g j = Fin (W2_of (Xd a i 0) (Xd a i 1) w1)" by blast
  have w: "W (sample_W_unit E a i st) i = [w1, W2_of (Xd a i 0) (Xd a i 1) w1]"
    using assms(3,4) j g by (simp add: sample_W_unit_def Let_def)
  have "Xd a i 0 * w1 + (1 - Xd a i 0) * W2_of (Xd a i 0) (Xd a i 1) w1 = Xd a i 1"
    using assms(1,2) by (simp add: W2_of_def)
  then show ?thesis
    unfolding w by simp
qed

lemma gibbs_iter_W:
  assumes "gibbs_iter E a ml st = Some st'" and "i < pin_samp a"
  shows "W st' i = W (fold (sample_W_unit E a) [0..<pin_samp a] st) i"
proof -
  define st1 where "st1 = fold (sample_W_unit E a) [0..<pin_samp a] st"
  define st2 where "st2 = (if x1 a = 1 then fold (update_x1_unit E a) [0..<sampx1 a] st1 else st1)"
  define st3 where "st3 = (if x0 a = 1 then fold (update_x0_unit E a) [0..<sampx0 a] st2 else st2)"
  have w2: "W st2 i = W st1 i"
    unfolding st2_def
    by (rule fold_preserves_if [where g = "\<lambda>s. W s i"]) (simp add: assms(2) update_x1_unit_frame)
  have w3: "W st3 i = W st2 i"
    unfolding st3_def
    by (rule fold_preserves_if [where g = "\<lambda>s. W s i"]) (simp add: assms(2) update_x0_unit_frame)
  have eq: "gibbs_iter E a ml st =
      (case opt_fold (sweep_unit E a) [0..<t_samp a] st3 of
         None \<Rightarrow> None
       | Some st4 \<Rightarrow> Some (store_draws E a ml (update_alpha E a (remix E a st4))))"
    by (simp only: gibbs_iter_def Let_def st1_def st2_def st3_def)
  from assms(1) obtain st4 where
    st4: "opt_fold (sweep_unit E a) [0..<t_samp a] st3 = Some st4"
    and st': "st' = store_draws E a ml (update_alpha E a (remix E a st4))"
    unfolding eq by (cases "opt_fold (sweep_unit E a) [0..<t_samp a] st3") auto
  have w4: "W st4 = W st3"
    by (rule opt_fold_preserves [OF _ st4]) (auto dest: sweep_unit_frame)
  show ?thesis
    unfolding st' st1_def [symmetric]
    using w2 w3 w4 remix_frame [of E a st4] update_alpha_frame [of E a "remix E a st4"]
      store_draws_frame [of E a ml "update_alpha E a (remix E a st4)"]
    by simp
qed

text \<open>
  C8. Take a unit of the sample with 0 < X < 1. If its latent pair is drawn (Y is neither
  0 nor 1), the pair left in \<open>W\<close> by the update of the unit satisfies the accounting
  identity, from whatever state the update starts: the draw picks a grid point, and
  every grid point has W2 = (Y - X W1) / (1 - X); nothing else in a round writes the pair
  of the unit, so the identity holds at the end of every round of the main loop as
  well. If Y is 0 or 1 no draw is made for the unit: its update takes nothing from the
  generator and leaves the pair as it is.
\<close>

theorem accounting_identity_after_draw:
  assumes "0 < Xd a i 0" and "Xd a i 0 < 1" and "i < pin_samp a"
  shows "(Xd a i 1 \<noteq> 0 \<and> Xd a i 1 \<noteq> 1 \<longrightarrow>
            (\<forall>st. \<bar>Xd a i 1 - (Xd a i 0 * W (sample_W_unit E a i st) i ! 0
                       + (1 - Xd a i 0) * W (sample_W_unit E a i st) i ! 1)\<bar> < 1 / 1000000) \<and>
            (\<forall>ml st st'. gibbs_iter E a ml st = Some st' \<longrightarrow>
               \<bar>Xd a i 1 - (Xd a i 0 * W st' i ! 0 + (1 - Xd a i 0) * W st' i ! 1)\<bar> < 1 / 1000000)) \<and>
         (Xd a i 1 = 0 \<or> Xd a i 1 = 1 \<longrightarrow>
            (\<forall>st. W (sample_W_unit E a i st) i = W st i \<and> rng (sample_W_unit E a i st) = rng st))"
proof -
  let ?P = "\<lambda>s. Xd a i 0 * W s i ! 0 + (1 - Xd a i 0) * W s i ! 1 = Xd a i 1"
  have drawn: "(\<forall>st. \<bar>Xd a i 1 - (Xd a i 0 * W (sample_W_unit E a i st) i ! 0
                       + (1 - Xd a i 0) * W (sample_W_unit E a i st) i ! 1)\<bar> < 1 / 1000000) \<and>
            (\<forall>ml st st'. gibbs_iter E a ml st = Some st' \<longrightarrow>
               \<bar>Xd a i 1 - (Xd a i 0 * W st' i ! 0 + (1 - Xd a i 0) * W st' i ! 1)\<bar> < 1 / 1000000)"
    if y: "Xd a i 1 \<noteq> 0" "Xd a i 1 \<noteq> 1"
  proof -
    have unit: "?P (sample_W_unit E a i st)" for st
      by (rule sample_W_unit_identity [OF assms(1,2) y])
    have keep: "?P (sample_W_unit E a x s)" if "?P s" for x s
    proof (cases "x = i")
      case True
      with unit show ?thesis by simp
    next
      case False
      with that sample_W_unit_frame [of E a x s i] show ?thesis by simp
    qed
    have all: "?P (fold (sample_W_unit E a) [0..<pin_samp a] st)" for st
      by (rule fold_establishes [where P = ?P and i = i]) (use unit keep assms(3) in auto)
    have "?P st'" if "gibbs_iter E a ml st = Some st'" for ml st st'
      using gibbs_iter_W [OF that assms(3)] all [of st] by simp
    with unit show ?thesis by simp
  qed
  have skipped: "\<forall>st. W (sample_W_unit E a i st) i = W st i \<and> rng (sample_W_unit E a i st) = rng st"
    if "Xd a i 1 = 0 \<or> Xd a i 1 = 1"
    using that by (auto simp: sample_W_unit_def)
  from drawn skipped show ?thesis by blast
qed

theorem accounting_identity_after_draw_witness:
  "0 < Xd test_inputs 0 0 \<and> Xd test_inputs 0 0 < 1 \<and> (0::nat) < pin_samp test_inputs \<and>
   Xd test_inputs 0 1 \<noteq> 0 \<and> Xd test_inputs 0 1 \<noteq> 1 \<and>
   \<bar>Xd test_inputs 0 1 - (Xd test_inputs 0 0 * W (sample_W_unit test_ext test_inputs 0 test_state) 0 ! 0
       + (1 - Xd test_inputs 0 0) * W (sample_W_unit test_ext test_inputs 0 test_state) 0 ! 1)\<bar> < 1 / 1000000"
  using accounting_identity_after_draw [of test_inputs 0 test_ext]
  by (simp add: test_inputs_def Xd_def)

end
